theory Spec2Isabelle
  imports Complex_Main "HOL-Library.Word" "HOL-Library.Log_Nat"
begin

section \<open>Numbers, strings and bytes of the host language\<close>

text \<open>
  The program is TypeScript running in a browser. Sizes and the pixel ratio are pixel
  counts and are modelled as natural numbers; loop counters and the values read back by
  \<open>parseInt\<close> are integers, with \<open>None\<close> standing for \<open>NaN\<close>. The embedding is faithful
  for sizes below \<open>2 ^ 53\<close>, where a JavaScript number holds every integer exactly and
  prints it in plain decimal notation. Pixel channels are bytes, as in the
  \<open>Uint8ClampedArray\<close> behind \<open>ImageData.data\<close>.
\<close>

type_synonym byte = "8 word"

datatype js_error = Error string | IndexSizeError

definition digit_char :: "nat \<Rightarrow> char" where
  "digit_char d = char_of (48 + d)"

text \<open>\<open>width + "px"\<close> first turns the number into its decimal digits.\<close>

fun number_to_string :: "nat \<Rightarrow> string" where
  "number_to_string n =
     (if n < 10 then [digit_char n]
      else number_to_string (n div 10) @ [digit_char (n mod 10)])"

declare number_to_string.simps [simp del]

definition is_white_space :: "char \<Rightarrow> bool" where
  "is_white_space c = ((of_char c :: nat) \<in> {9, 10, 11, 12, 13, 32})"

definition is_digit :: "char \<Rightarrow> bool" where
  "is_digit c = (48 \<le> (of_char c :: nat) \<and> (of_char c :: nat) \<le> 57)"

definition digit_val :: "char \<Rightarrow> nat" where
  "digit_val c = of_char c - 48"

text \<open>
  \<open>parseInt(s, 10)\<close>: leading white space is dropped (of JavaScript's white space the
  ASCII characters are modelled), one sign is read, then the longest run of decimal
  digits; with no digit the result is \<open>NaN\<close>. Whatever follows the digits (here the
  unit \<open>px\<close>) is ignored.
\<close>

definition parseInt :: "string \<Rightarrow> int option" where
  "parseInt s =
     (let t = dropWhile is_white_space s;
          neg = (case t of [] \<Rightarrow> False | c # _ \<Rightarrow> c = CHR ''-'');
          u = (case t of [] \<Rightarrow> t
               | c # r \<Rightarrow> if c = CHR ''+'' \<or> c = CHR ''-'' then r else t);
          z = takeWhile is_digit u
      in if z = [] then None
         else Some ((if neg then - 1 else 1) *
                    int (foldl (\<lambda>a c. 10 * a + digit_val c) 0 z)))"

text \<open>
  Storing a number into a \<open>Uint8ClampedArray\<close> clamps it to \<open>0 .. 255\<close>; a store at an
  index outside the array is ignored (a typed array never grows).
\<close>

definition to_uint8_clamp :: "int \<Rightarrow> byte" where
  "to_uint8_clamp v = (if v \<le> 0 then 0 else if 255 \<le> v then 255 else word_of_int v)"

definition store :: "byte list \<Rightarrow> nat \<Rightarrow> int \<Rightarrow> byte list" where
  "store d k v = (if k < length d then d[k := to_uint8_clamp v] else d)"

section \<open>The canvas behind a Viewport\<close>

text \<open>
  A \<open>Viewport\<close> holds a canvas element and its 2d context. The record has the slots of
  both that the program touches: the styled (logical) size as CSS strings, the
  backing-store size, the bitmap as row-major RGBA bytes, and of the context the fill
  style and the scale of the current transform. Fill styles are opaque solid colours.
  The bitmap holds the pixels as \<open>getImageData\<close> returns them.
\<close>

record canvas =
  has_2d :: bool
  style_width :: string
  style_height :: string
  canvas_width :: nat
  canvas_height :: nat
  bitmap :: "byte list"
  ctx_fillStyle :: "byte \<times> byte \<times> byte"
  ctx_scale_x :: nat
  ctx_scale_y :: nat

record image_data =
  img_width :: nat
  img_height :: nat
  img_data :: "byte list"

definition channel :: "byte \<times> byte \<times> byte \<times> byte \<Rightarrow> nat \<Rightarrow> byte" where
  "channel px c = (case px of (r, g, b, a) \<Rightarrow>
     if c = 0 then r else if c = 1 then g else if c = 2 then b else a)"

text \<open>
  Assigning \<open>canvas.width\<close> or \<open>canvas.height\<close> resizes the bitmap, clears it to
  transparent black and resets the context to its default state.
\<close>

definition set_canvas_width :: "nat \<Rightarrow> canvas \<Rightarrow> canvas" where
  "set_canvas_width w c =
     c\<lparr>canvas_width := w, bitmap := replicate (4 * w * canvas_height c) 0,
       ctx_fillStyle := (0, 0, 0), ctx_scale_x := 1, ctx_scale_y := 1\<rparr>"

definition set_canvas_height :: "nat \<Rightarrow> canvas \<Rightarrow> canvas" where
  "set_canvas_height h c =
     c\<lparr>canvas_height := h, bitmap := replicate (4 * canvas_width c * h) 0,
       ctx_fillStyle := (0, 0, 0), ctx_scale_x := 1, ctx_scale_y := 1\<rparr>"

definition ctx_scale :: "nat \<Rightarrow> nat \<Rightarrow> canvas \<Rightarrow> canvas" where
  "ctx_scale sx sy c = c\<lparr>ctx_scale_x := ctx_scale_x c * sx, ctx_scale_y := ctx_scale_y c * sy\<rparr>"

text \<open>
  \<open>paint x0 y0 x1 y1 px\<close> overwrites the device pixels of the rectangle
  \<open>[x0, x1) \<times> [y0, y1)\<close> that lie on the bitmap. \<open>fillRect\<close> and \<open>clearRect\<close> map their
  rectangle through the current transform first.
\<close>

definition paint :: "nat \<Rightarrow> nat \<Rightarrow> nat \<Rightarrow> nat \<Rightarrow> byte \<times> byte \<times> byte \<times> byte \<Rightarrow> canvas \<Rightarrow> canvas" where
  "paint x0 y0 x1 y1 px c =
     c\<lparr>bitmap := map (\<lambda>k.
          if x0 \<le> (k div 4) mod canvas_width c \<and> (k div 4) mod canvas_width c < x1 \<and>
             y0 \<le> (k div 4) div canvas_width c \<and> (k div 4) div canvas_width c < y1
          then channel px (k mod 4) else bitmap c ! k) [0..<length (bitmap c)]\<rparr>"

definition fillRect :: "nat \<Rightarrow> nat \<Rightarrow> nat \<Rightarrow> nat \<Rightarrow> canvas \<Rightarrow> canvas" where
  "fillRect x y w h c =
     (case ctx_fillStyle c of (r, g, b) \<Rightarrow>
        paint (x * ctx_scale_x c) (y * ctx_scale_y c)
              ((x + w) * ctx_scale_x c) ((y + h) * ctx_scale_y c) (r, g, b, 255) c)"

definition clearRect :: "nat \<Rightarrow> nat \<Rightarrow> nat \<Rightarrow> nat \<Rightarrow> canvas \<Rightarrow> canvas" where
  "clearRect x y w h c =
     paint (x * ctx_scale_x c) (y * ctx_scale_y c)
           ((x + w) * ctx_scale_x c) ((y + h) * ctx_scale_y c) (0, 0, 0, 0) c"

text \<open>
  A canvas keeps its pixels with the colour channels premultiplied by alpha, eight bits
  each, so a pixel that is put does not always read back as it was put: an opaque pixel
  does, a pixel of alpha 0 reads back as transparent black, and the colour of a
  translucent pixel is rounded twice. The HTML standard leaves the rounding to the
  implementation; here a channel is rounded to the nearest value when it is stored and
  truncated when it is read back. \<open>canvas_pixel px\<close> is what the pixel \<open>px\<close> reads back as
  once it has been put.
\<close>

definition premultiply :: "byte \<Rightarrow> byte \<Rightarrow> nat" where
  "premultiply v a = (2 * unat v * unat a + 255) div 510"

definition unpremultiply :: "nat \<Rightarrow> byte \<Rightarrow> byte" where
  "unpremultiply s a = of_nat (s * 255 div unat a)"

definition canvas_pixel :: "byte \<times> byte \<times> byte \<times> byte \<Rightarrow> byte \<times> byte \<times> byte \<times> byte" where
  "canvas_pixel px = (case px of (r, g, b, a) \<Rightarrow>
     if a = 0 then (0, 0, 0, 0)
     else (unpremultiply (premultiply r a) a, unpremultiply (premultiply g a) a,
           unpremultiply (premultiply b a) a, a))"

definition pixel_bytes :: "byte list \<Rightarrow> nat \<Rightarrow> byte \<times> byte \<times> byte \<times> byte" where
  "pixel_bytes d i = (d ! i, d ! (i + 1), d ! (i + 2), d ! (i + 3))"

text \<open>
  \<open>getImageData(0, 0, sw, sh)\<close> throws \<open>IndexSizeError\<close> for an empty rectangle and
  otherwise returns a fresh copy of the rectangle, transparent black outside the
  bitmap. \<open>putImageData(img, 0, 0)\<close> puts the pixels of \<open>img\<close> that lie on the bitmap,
  whatever the size of \<open>img\<close>; neither looks at the transform.
\<close>

definition getImageData :: "nat \<Rightarrow> nat \<Rightarrow> canvas \<Rightarrow> js_error + image_data" where
  "getImageData sw sh c =
     (if sw = 0 \<or> sh = 0 then Inl IndexSizeError
      else Inr \<lparr>img_width = sw, img_height = sh,
                img_data = map (\<lambda>k.
                  if (k div 4) mod sw < canvas_width c \<and> (k div 4) div sw < canvas_height c
                  then bitmap c ! (4 * ((k div 4) div sw * canvas_width c + (k div 4) mod sw) + k mod 4)
                  else 0) [0..<4 * sw * sh]\<rparr>)"

definition putImageData :: "image_data \<Rightarrow> canvas \<Rightarrow> canvas" where
  "putImageData img c =
     c\<lparr>bitmap := map (\<lambda>k.
          if (k div 4) mod canvas_width c < img_width img \<and>
             (k div 4) div canvas_width c < img_height img
          then channel (canvas_pixel (pixel_bytes (img_data img)
                  (4 * ((k div 4) div canvas_width c * img_width img
                        + (k div 4) mod canvas_width c)))) (k mod 4)
          else bitmap c ! k) [0..<length (bitmap c)]\<rparr>"

section \<open>Viewport.ts\<close>

text \<open>The module constant: the window's pixel ratio when there is one and it is not 0.\<close>

definition devicePixelRatio :: "nat option \<Rightarrow> nat" where
  "devicePixelRatio window =
     (case window of None \<Rightarrow> 1 | Some d \<Rightarrow> if d \<noteq> 0 then d else 1)"

definition width :: "canvas \<Rightarrow> int option" where
  "width vp = parseInt (style_width vp)"

definition height :: "canvas \<Rightarrow> int option" where
  "height vp = parseInt (style_height vp)"

definition setSize :: "nat \<Rightarrow> nat \<Rightarrow> nat \<Rightarrow> canvas \<Rightarrow> canvas" where
  "setSize w h pixelRatio vp =
     ctx_scale pixelRatio pixelRatio
       (set_canvas_height (h * pixelRatio)
         (set_canvas_width (w * pixelRatio)
           (vp\<lparr>style_width := number_to_string w @ ''px'',
               style_height := number_to_string h @ ''px''\<rparr>)))"

definition fill :: "byte \<times> byte \<times> byte \<Rightarrow> canvas \<Rightarrow> canvas" where
  "fill fillStyle vp =
     fillRect 0 0 (canvas_width vp) (canvas_height vp) (vp\<lparr>ctx_fillStyle := fillStyle\<rparr>)"

definition clear :: "canvas \<Rightarrow> canvas" where
  "clear vp = clearRect 0 0 (canvas_width vp) (canvas_height vp) vp"

definition white :: "byte \<times> byte \<times> byte" where
  "white = (255, 255, 255)"

definition imageData :: "canvas \<Rightarrow> js_error + image_data" where
  "imageData vp = getImageData (canvas_width vp) (canvas_height vp) vp"

definition set_imageData :: "image_data \<Rightarrow> canvas \<Rightarrow> canvas" where
  "set_imageData img vp = putImageData img vp"

text \<open>
  The constructor; the static \<open>create\<close> only forwards to it. The pixel ratio is always
  passed here: a caller that omits it, as the page does, passes \<open>devicePixelRatio\<close>.
\<close>

definition Viewport :: "canvas option \<Rightarrow> nat \<Rightarrow> nat \<Rightarrow> nat \<Rightarrow> js_error + canvas" where
  "Viewport cv w h pixelRatio =
     (case cv of
        None \<Rightarrow> Inl (Error ''You must provide a valid Canvas to the Viewport'')
      | Some c \<Rightarrow>
          if \<not> has_2d c then Inl (Error ''Could not get a valid 2d context for the canvas'')
          else Inr (fill white (setSize w h pixelRatio c)))"

definition create :: "canvas option \<Rightarrow> nat \<Rightarrow> nat \<Rightarrow> nat \<Rightarrow> js_error + canvas" where
  "create cv w h pixelRatio = Viewport cv w h pixelRatio"

section \<open>index.ts\<close>

subsection \<open>Double-precision arithmetic of the gradient\<close>

text \<open>
  The numbers of \<open>render\<close> are IEEE 754 doubles. A finite double is a rational, and
  each of \<open>/\<close> and \<open>*\<close> returns the exact result rounded to the nearest double, ties
  to the even significand. \<open>to_double\<close> is that rounding for the normal range (53-bit
  significands, no overflow and no subnormals), which is where every value of
  \<open>render\<close> lies. \<open>binade q\<close> is the exponent of the power of two at or below \<open>q\<close>.
\<close>

definition pow2 :: "int \<Rightarrow> rat" where
  "pow2 e = (if 0 \<le> e then 2 ^ nat e else 1 / 2 ^ nat (- e))"

definition round_half_even :: "rat \<Rightarrow> int" where
  "round_half_even q =
     (let n = \<lfloor>q\<rfloor>; d = q - of_int n
      in if d < 1 / 2 then n else if 1 / 2 < d then n + 1
         else if even n then n else n + 1)"

definition binade :: "rat \<Rightarrow> int" where
  "binade q =
     (case quotient_of q of (a, b) \<Rightarrow>
        let k = bitlen a - bitlen b
        in if pow2 k \<le> q then k else k - 1)"

definition to_double :: "rat \<Rightarrow> rat" where
  "to_double q =
     (if q = 0 then 0
      else let e = binade \<bar>q\<bar> - 52
           in sgn q * of_int (round_half_even (\<bar>q\<bar> / pow2 e)) * pow2 e)"

definition trunc :: "rat \<Rightarrow> int" where
  "trunc q = (if 0 \<le> q then \<lfloor>q\<rfloor> else - \<lfloor>- q\<rfloor>)"

text \<open>
  The body of the inner loop up to the three stores: the colour of the pixel in column
  \<open>i\<close> of row \<open>j\<close>. The loop only reaches it with \<open>0 \<le> i < nx\<close> and \<open>0 \<le> j < ny\<close>, so
  neither division is by zero.
\<close>

type_synonym rgb = "int \<times> int \<times> int"

definition gradient :: "int \<Rightarrow> int \<Rightarrow> int \<Rightarrow> int \<Rightarrow> rgb" where
  "gradient i j nx ny =
     (let r = to_double (of_int i / of_int nx);
          g = to_double (of_int j / of_int ny);
          b = to_double (2 / 10);
          ir = trunc (to_double (to_double (25599 / 100) * r));
          ig = trunc (to_double (to_double (25599 / 100) * g));
          ib = trunc (to_double (to_double (25599 / 100) * b))
      in (ir, ig, ib))"

subsection \<open>The render pass\<close>

text \<open>
  \<open>render\<close> computes the colour inline. The loops below take the per-pixel computation
  as a parameter that may throw, and \<open>render\<close> is their instance at \<open>gradient\<close>; an
  exception thrown inside the loop leaves \<open>render\<close> at once, as every JavaScript
  exception does. The loop state has the two variables the loop changes, \<open>index\<close> and
  the bytes of \<open>id.data\<close>, and a log that is not in the source: one entry
  \<open>(i, j, index)\<close> for each evaluation of the colour, in the order of evaluation.
\<close>

type_synonym color_fn = "int \<Rightarrow> int \<Rightarrow> int \<Rightarrow> int \<Rightarrow> js_error + rgb"

record loop_state =
  index :: nat
  data :: "byte list"
  calls :: "(int \<times> int \<times> nat) list"

definition write_pixel :: "rgb \<Rightarrow> int \<Rightarrow> int \<Rightarrow> loop_state \<Rightarrow> loop_state" where
  "write_pixel c i j st =
     (case c of (ir, ig, ib) \<Rightarrow>
        st\<lparr>data := store (store (store (data st) (index st) ir) (index st + 1) ig)
                       (index st + 2) ib,
           index := index st + 4,
           calls := calls st @ [(i, j, index st)]\<rparr>)"

function row_loop :: "color_fn \<Rightarrow> int \<Rightarrow> int \<Rightarrow> int \<Rightarrow> int \<Rightarrow> loop_state \<Rightarrow> js_error + loop_state" where
  "row_loop colorFn nx ny j i st =
     (if i < nx then
        (case colorFn i j nx ny of
           Inl e \<Rightarrow> Inl e
         | Inr c \<Rightarrow> row_loop colorFn nx ny j (i + 1) (write_pixel c i j st))
      else Inr st)"
  by pat_completeness auto
termination
  by (relation "measure (\<lambda>(colorFn, nx, ny, j, i, st). nat (nx - i))") auto

declare row_loop.simps [simp del]

function frame_loop :: "color_fn \<Rightarrow> int \<Rightarrow> int \<Rightarrow> int \<Rightarrow> loop_state \<Rightarrow> js_error + loop_state" where
  "frame_loop colorFn nx ny j st =
     (if 0 \<le> j then
        (case row_loop colorFn nx ny j 0 st of
           Inl e \<Rightarrow> Inl e
         | Inr st' \<Rightarrow> frame_loop colorFn nx ny (j - 1) st')
      else Inr st)"
  by pat_completeness auto
termination
  by (relation "measure (\<lambda>(colorFn, nx, ny, j, st). nat (j + 1))") auto

declare frame_loop.simps [simp del]

text \<open>
  The result of a render pass: the error thrown, or the buffer handed to the
  \<open>imageData\<close> setter together with the log; and the canvas afterwards. When \<open>width\<close> or
  \<open>height\<close> is \<open>NaN\<close> every loop test is false, so the snapshot is committed as it was
  read.
\<close>

type_synonym render_result = "(js_error + image_data \<times> (int \<times> int \<times> nat) list) \<times> canvas"

definition render_with :: "color_fn \<Rightarrow> canvas \<Rightarrow> render_result" where
  "render_with colorFn vp =
     (let nx = width vp; ny = height vp
      in case imageData vp of
           Inl e \<Rightarrow> (Inl e, vp)
         | Inr idata \<Rightarrow>
             (case (nx, ny) of
                (Some nx', Some ny') \<Rightarrow>
                  (case frame_loop colorFn nx' ny' (ny' - 1)
                          \<lparr>index = 0, data = img_data idata, calls = []\<rparr> of
                     Inl e \<Rightarrow> (Inl e, vp)
                   | Inr st \<Rightarrow>
                       (Inr (idata\<lparr>img_data := data st\<rparr>, calls st),
                        set_imageData (idata\<lparr>img_data := data st\<rparr>) vp))
              | _ \<Rightarrow> (Inr (idata, []), set_imageData idata vp)))"

definition pure_fn :: "(int \<Rightarrow> int \<Rightarrow> int \<Rightarrow> int \<Rightarrow> rgb) \<Rightarrow> color_fn" where
  "pure_fn f = (\<lambda>i j nx ny. Inr (f i j nx ny))"

definition render :: "canvas \<Rightarrow> render_result" where
  "render vp = render_with (pure_fn gradient) vp"

text \<open>
  The page's \<^verbatim>\<open>setup\<close> function (\<open>setup_page\<close> here, the name being reserved in
  Isabelle) looks the canvas and the button up in the document and creates the one
  viewport of the page, 640 by 480, at the pixel ratio of the window.
\<close>

definition setup_page :: "canvas option \<Rightarrow> bool \<Rightarrow> nat option \<Rightarrow> js_error + canvas" where
  "setup_page cv renderBtn window =
     (case cv of
        None \<Rightarrow> Inl (Error (''Please add a canvas element to the body with an id of ''
                 @ [CHR 0x22] @ ''canvas'' @ [CHR 0x22]))
      | Some c \<Rightarrow>
          (case create (Some c) 640 480 (devicePixelRatio window) of
             Inl e \<Rightarrow> Inl e
           | Inr vp \<Rightarrow>
               if \<not> renderBtn
               then Inl (Error (''Please add a render button element to the body with an id of ''
                      @ [CHR 0x22] @ ''renderBtn'' @ [CHR 0x22]))
               else Inr vp))"

text \<open>
  The bytes of pixel \<open>(x, y)\<close> of a buffer start at \<open>y * (width * 4) + x * 4\<close>, as the
  example in the documentation of the class has it.
\<close>

definition pixel_at :: "image_data \<Rightarrow> nat \<Rightarrow> nat \<Rightarrow> byte \<times> byte \<times> byte \<times> byte" where
  "pixel_at img x y =
     (let i = y * (img_width img * 4) + x * 4
      in (img_data img ! i, img_data img ! (i + 1), img_data img ! (i + 2), img_data img ! (i + 3)))"

section \<open>Vocabulary of the proofs\<close>

text \<open>
  None of the following is code of the program. \<open>surface vp w h r\<close> says that \<open>vp\<close> is
  in a state that \<open>setSize w h r\<close> leaves and that the other operations keep: the styled
  size is \<open>w\<close> by \<open>h\<close>, the backing store \<open>w * r\<close> by \<open>h * r\<close> with four bytes for each of
  its pixels. \<open>rendered f w h m d\<close> is the buffer \<open>d\<close> after the first \<open>m\<close> pixels of the
  scan, \<open>trace w h m\<close> is the log at that moment and \<open>frame_state\<close> the loop state.
\<close>

definition surface :: "canvas \<Rightarrow> nat \<Rightarrow> nat \<Rightarrow> nat \<Rightarrow> bool" where
  "surface vp w h r =
     (style_width vp = number_to_string w @ ''px'' \<and>
      style_height vp = number_to_string h @ ''px'' \<and>
      canvas_width vp = w * r \<and> canvas_height vp = h * r \<and>
      length (bitmap vp) = 4 * (w * r) * (h * r))"


definition rgb_channel :: "rgb \<Rightarrow> nat \<Rightarrow> int" where
  "rgb_channel c k = (case c of (r, g, b) \<Rightarrow> if k = 0 then r else if k = 1 then g else b)"

definition shade_at :: "(int \<Rightarrow> int \<Rightarrow> int \<Rightarrow> int \<Rightarrow> rgb) \<Rightarrow> nat \<Rightarrow> nat \<Rightarrow> nat \<Rightarrow> byte" where
  "shade_at f w h p =
     to_uint8_clamp (rgb_channel
       (f (int ((p div 4) mod w)) (int (h - 1 - (p div 4) div w)) (int w) (int h)) (p mod 4))"

definition rendered :: "(int \<Rightarrow> int \<Rightarrow> int \<Rightarrow> int \<Rightarrow> rgb) \<Rightarrow> nat \<Rightarrow> nat \<Rightarrow> nat \<Rightarrow> byte list \<Rightarrow> byte list" where
  "rendered f w h m d =
     map (\<lambda>p. if p < 4 * m \<and> p mod 4 \<noteq> 3 then shade_at f w h p else d ! p) [0..<length d]"

definition trace :: "nat \<Rightarrow> nat \<Rightarrow> nat \<Rightarrow> (int \<times> int \<times> nat) list" where
  "trace w h m = map (\<lambda>k. (int (k mod w), int (h - 1 - k div w), 4 * k)) [0..<m]"

definition frame_state :: "(int \<Rightarrow> int \<Rightarrow> int \<Rightarrow> int \<Rightarrow> rgb) \<Rightarrow> nat \<Rightarrow> nat \<Rightarrow> byte list \<Rightarrow> nat \<Rightarrow> loop_state" where
  "frame_state f w h d m = \<lparr>index = 4 * m, data = rendered f w h m d, calls = trace w h m\<rparr>"


text \<open>
  \<open>canvas_data d\<close> is the buffer \<open>d\<close> as it reads back after it has been put, pixel by
  pixel; \<open>opaque d\<close> says that every pixel of \<open>d\<close> has alpha 255.
\<close>

definition canvas_data :: "byte list \<Rightarrow> byte list" where
  "canvas_data d =
     map (\<lambda>k. channel (canvas_pixel (pixel_bytes d (4 * (k div 4)))) (k mod 4)) [0..<length d]"

definition opaque :: "byte list \<Rightarrow> bool" where
  "opaque d = (\<forall>p < length d div 4. d ! (4 * p + 3) = 255)"

text \<open>What a render pass committed, and its log; a canvas element to run examples on.\<close>

definition committed :: "render_result \<Rightarrow> image_data option" where
  "committed res = (case fst res of Inl e \<Rightarrow> None | Inr (img, tr) \<Rightarrow> Some img)"

definition colour_calls :: "render_result \<Rightarrow> (int \<times> int \<times> nat) list" where
  "colour_calls res = (case fst res of Inl e \<Rightarrow> [] | Inr (img, tr) \<Rightarrow> tr)"

definition blank_canvas :: canvas where
  "blank_canvas = \<lparr>has_2d = True, style_width = [], style_height = [], canvas_width = 0,
     canvas_height = 0, bitmap = [], ctx_fillStyle = (0, 0, 0), ctx_scale_x = 1, ctx_scale_y = 1\<rparr>"


text \<open>A colour function that throws at one pixel and is the gradient elsewhere.\<close>

definition failing_at :: "int \<Rightarrow> int \<Rightarrow> color_fn" where
  "failing_at x y = (\<lambda>i j nx ny.
     if i = x \<and> j = y then Inl (Error ''colour'') else Inr (gradient i j nx ny))"

text \<open>The pixel \<open>(x, y)\<close> of the committed buffer, when there is one.\<close>

definition committed_pixel :: "render_result \<Rightarrow> nat \<Rightarrow> nat \<Rightarrow> (byte \<times> byte \<times> byte \<times> byte) option" where
  "committed_pixel res x y = map_option (\<lambda>img. pixel_at img x y) (committed res)"

section \<open>The scan loop in closed form\<close>

lemma length_rendered [simp]: "length (rendered f w h m d) = length d"
  by (simp add: rendered_def)

lemma nth_rendered:
  "p < length d \<Longrightarrow>
   rendered f w h m d ! p = (if p < 4 * m \<and> p mod 4 \<noteq> 3 then shade_at f w h p else d ! p)"
  by (simp add: rendered_def)

lemma length_store [simp]: "length (store d k v) = length d"
  by (simp add: store_def)

lemma nth_store:
  "p < length d \<Longrightarrow> store d k v ! p = (if p = k then to_uint8_clamp v else d ! p)"
  by (simp add: store_def nth_list_update)

lemma pixel_pos:
  fixes i j w h m :: nat
  assumes "i < w" "j < h" "m = (h - 1 - j) * w + i"
  shows "m mod w = i" "h - 1 - m div w = j"
proof -
  have w: "w \<noteq> 0" using assms(1) by simp
  show "m mod w = i" using assms(1) unfolding assms(3) by simp
  have "m div w = h - 1 - j" using assms(1) w unfolding assms(3) by simp
  then show "h - 1 - m div w = j" using assms(2) by simp
qed

lemma pixel_number_bound:
  fixes x y w h :: nat
  assumes "x < w" "y < h"
  shows "(h - 1 - y) * w + x < h * w"
proof -
  have "h - y = Suc (h - 1 - y)" using assms(2) by simp
  then have e: "(h - y) * w = w + (h - 1 - y) * w" by (simp only: mult_Suc)
  have "(h - 1 - y) * w + x < (h - 1 - y) * w + w" using assms(1) by simp
  also have "\<dots> = (h - y) * w" using e by simp
  also have "\<dots> \<le> h * w" by simp
  finally show ?thesis .
qed

lemma shade_at_pixel:
  assumes "i < w" "j < h" "m = (h - 1 - j) * w + i" "c < 3"
  shows "shade_at f w h (4 * m + c) =
         to_uint8_clamp (rgb_channel (f (int i) (int j) (int w) (int h)) c)"
proof -
  have "(4 * m + c) div 4 = m" "(4 * m + c) mod 4 = c" using assms(4) by auto
  then show ?thesis
    using pixel_pos[OF assms(1-3)] by (simp add: shade_at_def)
qed

lemma rendered_step:
  assumes "i < w" "j < h" "m = (h - 1 - j) * w + i" "f (int i) (int j) (int w) (int h) = (ir, ig, ib)"
  shows "store (store (store (rendered f w h m d) (4 * m) ir) (4 * m + 1) ig) (4 * m + 2) ib
         = rendered f w h (Suc m) d"
proof (rule nth_equalityI)
  show "length (store (store (store (rendered f w h m d) (4 * m) ir) (4 * m + 1) ig) (4 * m + 2) ib)
        = length (rendered f w h (Suc m) d)" by simp
next
  fix p
  assume "p < length (store (store (store (rendered f w h m d) (4 * m) ir) (4 * m + 1) ig) (4 * m + 2) ib)"
  then have p: "p < length d" by simp
  have s0: "shade_at f w h (4 * m + 0) = to_uint8_clamp ir"
    using shade_at_pixel[where f = f, OF assms(1-3), of 0] assms(4) by (simp add: rgb_channel_def)
  have s1: "shade_at f w h (4 * m + 1) = to_uint8_clamp ig"
    using shade_at_pixel[where f = f, OF assms(1-3), of 1] assms(4) by (simp add: rgb_channel_def)
  have s2: "shade_at f w h (4 * m + 2) = to_uint8_clamp ib"
    using shade_at_pixel[where f = f, OF assms(1-3), of 2] assms(4) by (simp add: rgb_channel_def)
  have lhs: "store (store (store (rendered f w h m d) (4 * m) ir) (4 * m + 1) ig) (4 * m + 2) ib ! p
     = (if p = 4 * m + 2 then to_uint8_clamp ib else if p = 4 * m + 1 then to_uint8_clamp ig
        else if p = 4 * m then to_uint8_clamp ir
        else if p < 4 * m \<and> p mod 4 \<noteq> 3 then shade_at f w h p else d ! p)"
    using p by (simp only: nth_store length_store length_rendered nth_rendered)
  have rhs: "rendered f w h (Suc m) d ! p
     = (if p < 4 * Suc m \<and> p mod 4 \<noteq> 3 then shade_at f w h p else d ! p)"
    using p by (rule nth_rendered)
  consider "p < 4 * m" | "p = 4 * m + 0" | "p = 4 * m + 1" | "p = 4 * m + 2" | "p = 4 * m + 3" | "4 * m + 4 \<le> p"
    by linarith
  then show "store (store (store (rendered f w h m d) (4 * m) ir) (4 * m + 1) ig) (4 * m + 2) ib ! p
        = rendered f w h (Suc m) d ! p"
  proof cases
    case 1 then show ?thesis unfolding lhs rhs by simp
  next
    case 2
    have "p mod 4 = 0" unfolding 2 by simp
    moreover have "shade_at f w h p = to_uint8_clamp ir" unfolding 2 by (rule s0)
    ultimately show ?thesis unfolding lhs rhs using 2 by simp
  next
    case 3
    have "p mod 4 = 1" unfolding 3 by simp
    moreover have "shade_at f w h p = to_uint8_clamp ig" unfolding 3 by (rule s1)
    ultimately show ?thesis unfolding lhs rhs using 3 by simp
  next
    case 4
    have "p mod 4 = 2" unfolding 4 by presburger
    moreover have "shade_at f w h p = to_uint8_clamp ib" unfolding 4 by (rule s2)
    ultimately show ?thesis unfolding lhs rhs using 4 by simp
  next
    case 5
    have "p mod 4 = 3" unfolding 5 by presburger
    then show ?thesis unfolding lhs rhs using 5 by simp
  next
    case 6 then show ?thesis unfolding lhs rhs by simp
  qed
qed

lemma trace_Suc: "trace w h (Suc m) = trace w h m @ [(int (m mod w), int (h - 1 - m div w), 4 * m)]"
  by (simp add: trace_def)

lemma write_pixel_step:
  assumes "i < w" "j < h" "m = (h - 1 - j) * w + i"
  shows "write_pixel (f (int i) (int j) (int w) (int h)) (int i) (int j) (frame_state f w h d m)
         = frame_state f w h d (Suc m)"
proof -
  obtain ir ig ib where c: "f (int i) (int j) (int w) (int h) = (ir, ig, ib)"
    by (cases "f (int i) (int j) (int w) (int h)") auto
  show ?thesis
    using rendered_step[where f = f and d = d, OF assms c] pixel_pos[OF assms]
    by (simp add: write_pixel_def frame_state_def c trace_Suc)
qed

lemma row_loop_pure:
  assumes "j < h"
  shows "i \<le> w \<Longrightarrow>
         row_loop (pure_fn f) (int w) (int h) (int j) (int i) (frame_state f w h d ((h - 1 - j) * w + i))
         = Inr (frame_state f w h d ((h - 1 - j) * w + w))"
proof (induction "w - i" arbitrary: i)
  case 0
  then have "i = w" by simp
  then show ?case by (simp add: row_loop.simps[of _ _ _ _ "int w"])
next
  case (Suc n)
  then have lt: "i < w" and n: "n = w - Suc i" and le: "Suc i \<le> w" by auto
  have step: "write_pixel (f (int i) (int j) (int w) (int h)) (int i) (int j)
                (frame_state f w h d ((h - 1 - j) * w + i))
              = frame_state f w h d ((h - 1 - j) * w + Suc i)"
    using write_pixel_step[where f = f and d = d, OF lt assms refl] by simp
  have i1: "int i + 1 = int (Suc i)" by simp
  have "row_loop (pure_fn f) (int w) (int h) (int j) (int i) (frame_state f w h d ((h - 1 - j) * w + i))
        = row_loop (pure_fn f) (int w) (int h) (int j) (int i + 1)
            (write_pixel (f (int i) (int j) (int w) (int h)) (int i) (int j)
              (frame_state f w h d ((h - 1 - j) * w + i)))"
    using lt by (simp add: row_loop.simps[of _ _ _ _ "int i"] pure_fn_def)
  also have "\<dots> = row_loop (pure_fn f) (int w) (int h) (int j) (int (Suc i))
            (frame_state f w h d ((h - 1 - j) * w + Suc i))"
    by (simp only: step i1)
  also have "\<dots> = Inr (frame_state f w h d ((h - 1 - j) * w + w))"
    by (rule Suc.hyps(1)[OF n le])
  finally show ?case .
qed

lemma row_loop_row:
  assumes "j < h"
  shows "row_loop (pure_fn f) (int w) (int h) (int j) 0 (frame_state f w h d ((h - 1 - j) * w))
         = Inr (frame_state f w h d ((h - j) * w))"
proof -
  have "h - j = Suc (h - 1 - j)" using assms by simp
  then have "(h - j) * w = w + (h - 1 - j) * w" by (simp only: mult_Suc)
  then have "(h - 1 - j) * w + w = (h - j) * w" by simp
  then show ?thesis using row_loop_pure[OF assms, of 0 w f d] by simp
qed

lemma frame_loop_pure:
  "j < h \<Longrightarrow>
   frame_loop (pure_fn f) (int w) (int h) (int j) (frame_state f w h d ((h - 1 - j) * w))
   = Inr (frame_state f w h d (h * w))"
proof (induction j)
  case 0
  have "frame_loop (pure_fn f) (int w) (int h) (int 0) (frame_state f w h d ((h - 1 - 0) * w))
        = frame_loop (pure_fn f) (int w) (int h) (int 0 - 1) (frame_state f w h d ((h - 0) * w))"
    by (simp add: frame_loop.simps[of _ _ _ 0] row_loop_row[OF 0, simplified])
  also have "\<dots> = Inr (frame_state f w h d (h * w))"
    by (simp add: frame_loop.simps[of _ _ _ "- 1"])
  finally show ?case .
next
  case (Suc j)
  then have j: "j < h" by simp
  have e: "(h - Suc j) * w = (h - 1 - j) * w" by simp
  have i1: "int (Suc j) - 1 = int j" by simp
  have "frame_loop (pure_fn f) (int w) (int h) (int (Suc j)) (frame_state f w h d ((h - 1 - Suc j) * w))
        = frame_loop (pure_fn f) (int w) (int h) (int (Suc j) - 1) (frame_state f w h d ((h - Suc j) * w))"
    by (subst frame_loop.simps) (simp only: row_loop_row[OF Suc.prems] sum.case of_nat_0_le_iff if_True)
  also have "\<dots> = Inr (frame_state f w h d (h * w))"
    unfolding i1 e by (rule Suc.IH[OF j])
  finally show ?case .
qed

lemma frame_loop_all:
  "frame_loop (pure_fn f) (int w) (int h) (int h - 1) \<lparr>index = 0, data = d, calls = []\<rparr>
   = Inr (frame_state f w h d (h * w))"
proof (cases h)
  case 0
  have "rendered f w 0 0 d = d" by (simp add: rendered_def map_nth)
  then show ?thesis using 0
    by (subst frame_loop.simps) (simp add: frame_state_def trace_def)
next
  case (Suc k)
  have r: "rendered f w h 0 d = d" by (simp add: rendered_def map_nth)
  have "int h - 1 = int k" using Suc by simp
  moreover have "frame_state f w h d ((h - 1 - k) * w) = \<lparr>index = 0, data = d, calls = []\<rparr>"
    using Suc r by (simp add: frame_state_def trace_def)
  ultimately show ?thesis
    using frame_loop_pure[of k h f w d] Suc by simp
qed

section \<open>Sizes, strings and the canvas operations\<close>

lemma is_digit_digit_char: "d < 10 \<Longrightarrow> is_digit (digit_char d)"
  by (simp add: is_digit_def digit_char_def)

lemma digit_val_digit_char: "d < 10 \<Longrightarrow> digit_val (digit_char d) = d"
  by (simp add: digit_val_def digit_char_def)

lemma digits_all: "c \<in> set (number_to_string n) \<Longrightarrow> is_digit c"
proof (induction n arbitrary: c rule: number_to_string.induct)
  case (1 n)
  show ?case
  proof (cases "n < 10")
    case True
    with "1.prems" show ?thesis
      by (simp add: number_to_string.simps[of n] is_digit_digit_char)
  next
    case False
    with "1.prems" "1.IH" show ?thesis
      by (auto simp: number_to_string.simps[of n] is_digit_digit_char)
  qed
qed

lemma digits_nonempty: "number_to_string n \<noteq> []"
  by (simp add: number_to_string.simps[of n])

lemma digits_value: "foldl (\<lambda>a c. 10 * a + digit_val c) 0 (number_to_string n) = n"
proof (induction n rule: number_to_string.induct)
  case (1 n)
  show ?case
  proof (cases "n < 10")
    case True
    then show ?thesis
      by (simp add: number_to_string.simps[of n] digit_val_digit_char)
  next
    case False
    with "1.IH" show ?thesis
      by (simp add: number_to_string.simps[of n] digit_val_digit_char)
  qed
qed

lemma is_digit_plain:
  assumes "is_digit c"
  shows "\<not> is_white_space c" "c \<noteq> CHR ''-''" "c \<noteq> CHR ''+''"
  using assms by (auto simp: is_digit_def is_white_space_def)

lemma not_digit_p: "\<not> is_digit CHR ''p''"
  by (simp add: is_digit_def)

lemma parseInt_px: "parseInt (number_to_string n @ ''px'') = Some (int n)"
proof -
  obtain c cs where s: "number_to_string n = c # cs"
    using digits_nonempty[of n] by (cases "number_to_string n") auto
  have c: "is_digit c" using digits_all[of c n] s by simp
  have tw: "takeWhile is_digit (number_to_string n @ ''px'') = number_to_string n"
    using digits_all[of _ n] by (simp add: takeWhile_append2 not_digit_p)
  have dw: "dropWhile is_white_space (number_to_string n @ ''px'') = number_to_string n @ ''px''"
    using is_digit_plain(1)[OF c] by (simp add: s)
  have "parseInt (number_to_string n @ ''px'')
        = Some (int (foldl (\<lambda>a c. 10 * a + digit_val c) 0 (number_to_string n)))"
    unfolding parseInt_def dw Let_def
    using is_digit_plain(2,3)[OF c] tw digits_nonempty[of n]
    by (simp add: s)
  then show ?thesis by (simp only: digits_value)
qed

lemma surface_width: "surface vp w h r \<Longrightarrow> width vp = Some (int w)"
  by (simp add: surface_def width_def parseInt_px)

lemma surface_height: "surface vp w h r \<Longrightarrow> height vp = Some (int h)"
  by (simp add: surface_def height_def parseInt_px)

lemma pixel_in_bitmap:
  fixes k cw ch :: nat
  assumes "k < 4 * cw * ch"
  shows "(k div 4) mod cw < cw" "(k div 4) div cw < ch"
        "4 * ((k div 4) div cw * cw + (k div 4) mod cw) + k mod 4 = k"
proof -
  have cw: "0 < cw" using assms by (cases cw) auto
  then show "(k div 4) mod cw < cw" by simp
  have "k div 4 < cw * ch" using assms by (simp add: less_mult_imp_div_less mult.commute mult.left_commute)
  then show "(k div 4) div cw < ch" by (simp add: less_mult_imp_div_less mult.commute)
  show "4 * ((k div 4) div cw * cw + (k div 4) mod cw) + k mod 4 = k" by simp
qed

lemma paint_cover:
  assumes "length (bitmap c) = 4 * canvas_width c * canvas_height c"
    and "canvas_width c \<le> x1" "canvas_height c \<le> y1"
  shows "bitmap (paint 0 0 x1 y1 (v, v, v, v) c) = replicate (length (bitmap c)) v"
proof (rule nth_equalityI)
  show "length (bitmap (paint 0 0 x1 y1 (v, v, v, v) c)) = length (replicate (length (bitmap c)) v)"
    by (simp add: paint_def)
next
  fix k assume "k < length (bitmap (paint 0 0 x1 y1 (v, v, v, v) c))"
  then have k: "k < 4 * canvas_width c * canvas_height c" using assms(1) by (simp add: paint_def)
  have "(k div 4) mod canvas_width c < x1" "(k div 4) div canvas_width c < y1"
    using pixel_in_bitmap(1,2)[OF k] assms(2,3) by auto
  then show "bitmap (paint 0 0 x1 y1 (v, v, v, v) c) ! k = replicate (length (bitmap c)) v ! k"
    using k assms(1) by (simp add: paint_def channel_def)
qed

lemma paint_fields [simp]:
  "style_width (paint x0 y0 x1 y1 px c) = style_width c"
  "style_height (paint x0 y0 x1 y1 px c) = style_height c"
  "canvas_width (paint x0 y0 x1 y1 px c) = canvas_width c"
  "canvas_height (paint x0 y0 x1 y1 px c) = canvas_height c"
  "length (bitmap (paint x0 y0 x1 y1 px c)) = length (bitmap c)"
  by (simp_all add: paint_def)

lemma surface_setSize:
  "surface (setSize w h r c) w h r"
  "ctx_scale_x (setSize w h r c) = r" "ctx_scale_y (setSize w h r c) = r"
  by (simp_all add: surface_def setSize_def ctx_scale_def set_canvas_height_def set_canvas_width_def)

lemma scaled_cover: fixes n r :: nat shows "n * r \<le> n * r * r"
  by (cases r) auto

lemma surface_fill: "surface vp w h r \<Longrightarrow> surface (fill s vp) w h r"
  by (cases s) (simp add: surface_def fill_def fillRect_def)

lemma surface_clear: "surface vp w h r \<Longrightarrow> surface (clear vp) w h r"
  by (simp add: surface_def clear_def clearRect_def)

lemma surface_set_imageData: "surface vp w h r \<Longrightarrow> surface (set_imageData img vp) w h r"
  by (simp add: surface_def set_imageData_def putImageData_def)

lemma bitmap_fill_white:
  assumes "surface vp w h r" "ctx_scale_x vp = r" "ctx_scale_y vp = r"
  shows "bitmap (fill white vp) = replicate (4 * (w * r) * (h * r)) 255"
proof -
  let ?c = "vp\<lparr>ctx_fillStyle := white\<rparr>"
  have "bitmap (paint 0 0 (w * r * r) (h * r * r) (255, 255, 255, 255) ?c)
        = replicate (length (bitmap ?c)) 255"
    using assms(1) scaled_cover[of w r] scaled_cover[of h r]
    by (intro paint_cover) (simp_all add: surface_def)
  then show ?thesis
    using assms by (simp add: fill_def fillRect_def white_def surface_def)
qed

lemma bitmap_clear:
  assumes "surface vp w h r" "ctx_scale_x vp = r" "ctx_scale_y vp = r"
  shows "bitmap (clear vp) = replicate (4 * (w * r) * (h * r)) 0"
proof -
  have "bitmap (paint 0 0 (w * r * r) (h * r * r) (0, 0, 0, 0) vp)
        = replicate (length (bitmap vp)) 0"
    using assms(1) scaled_cover[of w r] scaled_cover[of h r]
    by (intro paint_cover) (simp_all add: surface_def)
  then show ?thesis
    using assms by (simp add: clear_def clearRect_def surface_def)
qed

lemma Viewport_surface:
  assumes "Viewport cv w h r = Inr vp"
  shows "surface vp w h r" "bitmap vp = replicate (4 * (w * r) * (h * r)) 255"
proof -
  obtain c where c: "cv = Some c" "has_2d c" "vp = fill white (setSize w h r c)"
    using assms by (auto simp: Viewport_def split: option.splits if_splits)
  show "surface vp w h r" unfolding c(3) by (rule surface_fill[OF surface_setSize(1)])
  show "bitmap vp = replicate (4 * (w * r) * (h * r)) 255"
    unfolding c(3) by (rule bitmap_fill_white[OF surface_setSize])
qed

lemma imageData_surface:
  assumes "surface vp w h r" "0 < w" "0 < h" "0 < r"
  shows "imageData vp = Inr \<lparr>img_width = w * r, img_height = h * r, img_data = bitmap vp\<rparr>"
proof -
  let ?cw = "w * r" and ?ch = "h * r"
  have len: "length (bitmap vp) = 4 * ?cw * ?ch" and cw: "canvas_width vp = ?cw"
    and ch: "canvas_height vp = ?ch"
    using assms(1) by (simp_all add: surface_def)
  have "map (\<lambda>k. if (k div 4) mod ?cw < ?cw \<and> (k div 4) div ?cw < ?ch
                 then bitmap vp ! (4 * ((k div 4) div ?cw * ?cw + (k div 4) mod ?cw) + k mod 4)
                 else 0) [0..<4 * ?cw * ?ch] = bitmap vp"
  proof (rule nth_equalityI)
    show "length (map (\<lambda>k. if (k div 4) mod ?cw < ?cw \<and> (k div 4) div ?cw < ?ch
                 then bitmap vp ! (4 * ((k div 4) div ?cw * ?cw + (k div 4) mod ?cw) + k mod 4)
                 else 0) [0..<4 * ?cw * ?ch]) = length (bitmap vp)"
      using len by simp
  next
    fix k assume "k < length (map (\<lambda>k. if (k div 4) mod ?cw < ?cw \<and> (k div 4) div ?cw < ?ch
                 then bitmap vp ! (4 * ((k div 4) div ?cw * ?cw + (k div 4) mod ?cw) + k mod 4)
                 else 0) [0..<4 * ?cw * ?ch])"
    then have k: "k < 4 * ?cw * ?ch" by simp
    show "map (\<lambda>k. if (k div 4) mod ?cw < ?cw \<and> (k div 4) div ?cw < ?ch
                 then bitmap vp ! (4 * ((k div 4) div ?cw * ?cw + (k div 4) mod ?cw) + k mod 4)
                 else 0) [0..<4 * ?cw * ?ch] ! k = bitmap vp ! k"
      using k pixel_in_bitmap[OF k] by (simp del: mult_div_mod_eq div_mult_mod_eq)
  qed
  then show ?thesis
    unfolding imageData_def getImageData_def cw ch using assms(2-4) by simp
qed


lemma canvas_pixel_opaque: "canvas_pixel (r, g, b, 255) = (r, g, b, 255)"
proof -
  have "unpremultiply (premultiply v 255) 255 = v" for v :: byte
    by (simp add: premultiply_def unpremultiply_def)
  then show ?thesis by (simp add: canvas_pixel_def)
qed

lemma canvas_pixel_alpha: "channel (canvas_pixel (r, g, b, a)) 3 = a"
  by (simp add: canvas_pixel_def channel_def)

lemma channel_pixel_bytes:
  assumes "c < 4"
  shows "channel (pixel_bytes d i) c = d ! (i + c)"
proof -
  consider "c = 0" | "c = 1" | "c = 2" | "c = 3" using assms by linarith
  then show ?thesis by cases (simp_all add: channel_def pixel_bytes_def)
qed

lemma channel_canvas_pixel_opaque:
  assumes "c < 4" "d ! (i + 3) = 255"
  shows "channel (canvas_pixel (pixel_bytes d i)) c = d ! (i + c)"
proof -
  have "canvas_pixel (pixel_bytes d i) = pixel_bytes d i"
    using assms(2) by (simp add: pixel_bytes_def canvas_pixel_opaque)
  then show ?thesis using channel_pixel_bytes[OF assms(1)] by simp
qed

lemma length_canvas_data [simp]: "length (canvas_data d) = length d"
  by (simp add: canvas_data_def)

lemma canvas_data_opaque:
  assumes "opaque d" "length d = 4 * n"
  shows "canvas_data d = d"
proof (rule nth_equalityI)
  show "length (canvas_data d) = length d" by simp
next
  fix k assume "k < length (canvas_data d)"
  then have k: "k < length d" by simp
  then have "k div 4 < length d div 4" using assms(2) by simp
  then have a: "d ! (4 * (k div 4) + 3) = 255" using assms(1) by (simp add: opaque_def)
  have c: "k mod 4 < 4" by simp
  have "canvas_data d ! k = channel (canvas_pixel (pixel_bytes d (4 * (k div 4)))) (k mod 4)"
    using k by (simp add: canvas_data_def)
  also have "\<dots> = d ! (4 * (k div 4) + k mod 4)"
    by (rule channel_canvas_pixel_opaque[OF c a])
  also have "\<dots> = d ! k" by simp
  finally show "canvas_data d ! k = d ! k" .
qed


lemma set_imageData_fit:
  assumes "length (bitmap vp) = 4 * canvas_width vp * canvas_height vp"
    and "img_width img = canvas_width vp" "img_height img = canvas_height vp"
    and "length (img_data img) = length (bitmap vp)"
  shows "set_imageData img vp = vp\<lparr>bitmap := canvas_data (img_data img)\<rparr>"
proof -
  let ?cw = "canvas_width vp" and ?ch = "canvas_height vp"
  let ?put = "\<lambda>k. if (k div 4) mod ?cw < ?cw \<and> (k div 4) div ?cw < ?ch
                 then channel (canvas_pixel (pixel_bytes (img_data img)
                        (4 * ((k div 4) div ?cw * ?cw + (k div 4) mod ?cw)))) (k mod 4)
                 else bitmap vp ! k"
  have "map ?put [0..<length (bitmap vp)] = canvas_data (img_data img)"
  proof (rule nth_equalityI)
    show "length (map ?put [0..<length (bitmap vp)]) = length (canvas_data (img_data img))"
      using assms(4) by simp
  next
    fix k assume "k < length (map ?put [0..<length (bitmap vp)])"
    then have k: "k < 4 * ?cw * ?ch" using assms(1) by simp
    have "(k div 4) div ?cw * ?cw + (k div 4) mod ?cw = k div 4" by simp
    then show "map ?put [0..<length (bitmap vp)] ! k = canvas_data (img_data img) ! k"
      using k assms(1,4) pixel_in_bitmap(1,2)[OF k]
      by (simp add: canvas_data_def del: mult_div_mod_eq div_mult_mod_eq)
  qed
  then show ?thesis
    unfolding set_imageData_def putImageData_def assms(2,3) by simp
qed

lemma render_pure:
  assumes "surface vp w h r" "0 < w" "0 < h" "0 < r"
  shows "render_with (pure_fn f) vp =
           (Inr (\<lparr>img_width = w * r, img_height = h * r,
                  img_data = rendered f w h (h * w) (bitmap vp)\<rparr>, trace w h (h * w)),
            vp\<lparr>bitmap := canvas_data (rendered f w h (h * w) (bitmap vp))\<rparr>)"
proof -
  let ?img = "\<lparr>img_width = w * r, img_height = h * r,
                img_data = rendered f w h (h * w) (bitmap vp)\<rparr>"
  have put: "set_imageData ?img vp = vp\<lparr>bitmap := canvas_data (img_data ?img)\<rparr>"
    using assms(1) by (intro set_imageData_fit) (simp_all add: surface_def)
  show ?thesis
    unfolding render_with_def
    by (simp add: surface_width[OF assms(1)] surface_height[OF assms(1)]
        imageData_surface[OF assms] frame_loop_all frame_state_def put[simplified])
qed


section \<open>What the operations keep\<close>

lemma render_with_style:
  "style_width (snd (render_with colorFn vp)) = style_width vp"
  "style_height (snd (render_with colorFn vp)) = style_height vp"
  by (auto simp: render_with_def set_imageData_def putImageData_def Let_def
           split: sum.splits option.splits prod.splits)

lemma style_kept:
  "style_width (fill s vp) = style_width vp" "style_height (fill s vp) = style_height vp"
  "style_width (clear vp) = style_width vp" "style_height (clear vp) = style_height vp"
  "style_width (set_imageData img vp) = style_width vp"
  "style_height (set_imageData img vp) = style_height vp"
  by (simp_all add: fill_def fillRect_def clear_def clearRect_def set_imageData_def
        putImageData_def split: prod.splits)

lemma create_blank:
  "create (Some blank_canvas) w h r = Inr (fill white (setSize w h r blank_canvas))"
  by (simp add: create_def Viewport_def blank_canvas_def)

lemma surface_blank: "surface (fill white (setSize w h r blank_canvas)) w h r"
  by (rule surface_fill[OF surface_setSize(1)])

section \<open>The log and the buffer of a whole frame\<close>

lemma length_trace [simp]: "length (trace w h m) = m"
  by (simp add: trace_def)

lemma trace_cursor: "map (\<lambda>e. snd (snd e)) (trace w h m) = map (\<lambda>k. 4 * k) [0..<m]"
  by (simp add: trace_def)

lemma trace_row:
  assumes "n < h"
  shows "map (\<lambda>k. (int (k mod w), int (h - 1 - k div w), 4 * k)) [n * w..<n * w + w]
         = map (\<lambda>x. (int x, int (h - 1 - n), 4 * ((h - 1 - (h - 1 - n)) * w + x))) [0..<w]"
proof -
  have n: "h - 1 - (h - 1 - n) = n" using assms by simp
  have "[n * w..<n * w + w] = map (\<lambda>x. x + n * w) [0..<w]"
    by (simp add: map_add_upt add.commute)
  then have "map (\<lambda>k. (int (k mod w), int (h - 1 - k div w), 4 * k)) [n * w..<n * w + w]
        = map (\<lambda>x. (int ((x + n * w) mod w), int (h - 1 - (x + n * w) div w), 4 * (x + n * w))) [0..<w]"
    by (simp add: comp_def)
  also have "\<dots> = map (\<lambda>x. (int x, int (h - 1 - n), 4 * (n * w + x))) [0..<w]"
    by (rule map_cong) (auto simp: add.commute)
  finally show ?thesis unfolding n .
qed

lemma trace_rows_upto:
  "n \<le> h \<Longrightarrow>
   trace w h (n * w)
   = concat (map (\<lambda>k. map (\<lambda>x. (int x, int (h - 1 - k), 4 * ((h - 1 - (h - 1 - k)) * w + x))) [0..<w])
       [0..<n])"
proof (induction n)
  case 0
  then show ?case by (simp add: trace_def)
next
  case (Suc n)
  then have n: "n < h" "n \<le> h" by simp_all
  have "[0..<Suc n * w] = [0..<n * w] @ [n * w..<n * w + w]"
    using upt_add_eq_append[of 0 "n * w" w] by (simp add: add.commute)
  then have "trace w h (Suc n * w)
     = trace w h (n * w) @ map (\<lambda>k. (int (k mod w), int (h - 1 - k div w), 4 * k)) [n * w..<n * w + w]"
    by (simp add: trace_def)
  then show ?case
    unfolding trace_row[OF n(1)] Suc.IH[OF n(2)] by simp
qed

lemma rev_upt_map: "rev [0..<h] = map (\<lambda>k. h - 1 - k) [0..<h]"
  by (rule nth_equalityI) (simp_all add: rev_nth)

lemma trace_rows:
  "trace w h (h * w)
   = concat (map (\<lambda>y. map (\<lambda>x. (int x, int y, 4 * ((h - 1 - y) * w + x))) [0..<w]) (rev [0..<h]))"
  unfolding rev_upt_map using trace_rows_upto[of h h w] by (simp add: comp_def)

lemma rendered_pixel:
  assumes "x < w" "y < h" "c < 3" "4 * (h * w) \<le> length d"
  shows "rendered f w h (h * w) d ! (4 * ((h - 1 - y) * w + x) + c)
         = to_uint8_clamp (rgb_channel (f (int x) (int y) (int w) (int h)) c)"
proof -
  let ?m = "(h - 1 - y) * w + x"
  have m: "?m < h * w" using assms(1,2) by (rule pixel_number_bound)
  then have p: "4 * ?m + c < 4 * (h * w)" using assms(3) by simp
  have "(4 * n + c) mod 4 = c" for n :: nat using assms(3) by simp
  then have c: "(4 * ?m + c) mod 4 = c" .
  show ?thesis
    using p c assms(3,4) shade_at_pixel[where f = f, OF assms(1,2) refl assms(3)]
    by (simp add: nth_rendered)
qed

lemma rendered_alpha:
  assumes "p < length d" "p mod 4 = 3"
  shows "rendered f w h m d ! p = d ! p"
  using assms by (simp add: nth_rendered)

lemma rendered_beyond:
  assumes "p < length d" "4 * m \<le> p"
  shows "rendered f w h m d ! p = d ! p"
  using assms by (simp add: nth_rendered)


lemma surface_bitmap_length:
  "surface vp w h r \<Longrightarrow> length (bitmap vp) = 4 * (w * r) * (h * r)"
  by (simp add: surface_def)

lemma surface_holds_frame:
  fixes w h r :: nat
  assumes "0 < r"
  shows "4 * (h * w) \<le> 4 * (w * r) * (h * r)"
proof -
  have "w \<le> w * r" "h \<le> h * r" using assms by simp_all
  then have "w * h \<le> (w * r) * (h * r)" by (rule mult_le_mono)
  then show ?thesis by (simp add: mult.commute mult.left_commute)
qed


lemma bitmap_blank:
  "bitmap (fill white (setSize w h r blank_canvas)) = replicate (4 * (w * r) * (h * r)) 255"
  using Viewport_surface(2)[of "Some blank_canvas" w h r] create_blank[of w h r]
  by (simp add: create_def)








lemma render_surface:
  assumes "surface vp w h r" "0 < w" "0 < h" "0 < r"
  shows "imageData vp = Inr \<lparr>img_width = w * r, img_height = h * r, img_data = bitmap vp\<rparr>"
    and "render_with (pure_fn f) vp =
           (Inr (\<lparr>img_width = w * r, img_height = h * r,
                  img_data = rendered f w h (h * w) (bitmap vp)\<rparr>, trace w h (h * w)),
            vp\<lparr>bitmap := canvas_data (rendered f w h (h * w) (bitmap vp))\<rparr>)"
    and "4 * (h * w) \<le> length (bitmap vp)"
  using imageData_surface[OF assms] render_pure[OF assms] surface_holds_frame[OF assms(4), of h w]
    surface_bitmap_length[OF assms(1)] by simp_all

lemma render_calls_count:
  assumes "surface vp w h r" "0 < w" "0 < h" "0 < r"
  shows "length (colour_calls (render_with (pure_fn f) vp)) = w * h"
  by (simp add: render_pure[OF assms] colour_calls_def mult.commute)

lemma trace_member:
  assumes "x < w" "y < h"
  shows "(int x, int y, 4 * ((h - 1 - y) * w + x)) \<in> set (trace w h (h * w))"
proof -
  let ?m = "(h - 1 - y) * w + x"
  have m: "?m < h * w" using assms(1,2) by (rule pixel_number_bound)
  then have "trace w h (h * w) ! ?m = (int (?m mod w), int (h - 1 - ?m div w), 4 * ?m)"
    by (simp add: trace_def)
  then have "trace w h (h * w) ! ?m = (int x, int y, 4 * ?m)"
    using pixel_pos[OF assms refl] by simp
  moreover have "trace w h (h * w) ! ?m \<in> set (trace w h (h * w))"
    using m by (intro nth_mem) simp
  ultimately show ?thesis by simp
qed

lemma gradient_0_0_1_1: "gradient 0 0 1 1 = (0, 0, 51)"
  by code_simp

lemma scale_blank:
  "ctx_scale_x (fill white (setSize w h r blank_canvas)) = r"
  "ctx_scale_y (fill white (setSize w h r blank_canvas)) = r"
  by (simp_all add: fill_def fillRect_def paint_def white_def surface_setSize(2,3))

section \<open>A colour function that throws\<close>

lemma row_loop_throws:
  assumes "colorFn x j nx ny = Inl e" "x < nx"
  shows "i \<le> x \<Longrightarrow> \<exists>e'. row_loop colorFn nx ny j i st = Inl e'"
proof (induction "nat (x - i)" arbitrary: i st)
  case 0
  then have "i = x" by simp
  then show ?case using assms by (simp add: row_loop.simps[of _ _ _ _ x])
next
  case (Suc n)
  then have lt: "i < x" and n: "n = nat (x - (i + 1))" and le: "i + 1 \<le> x" by auto
  show ?case
  proof (cases "colorFn i j nx ny")
    case (Inl e1)
    then show ?thesis using lt assms(2) by (simp add: row_loop.simps[of _ _ _ _ i])
  next
    case (Inr c)
    then show ?thesis
      using lt assms(2) Suc.hyps(1)[OF n le, of "write_pixel c i j st"]
      by (simp add: row_loop.simps[of _ _ _ _ i])
  qed
qed

lemma frame_loop_throws:
  assumes "colorFn x y nx ny = Inl e" "0 \<le> x" "x < nx" "0 \<le> y"
  shows "y \<le> j \<Longrightarrow> \<exists>e'. frame_loop colorFn nx ny j st = Inl e'"
proof (induction "nat (j - y)" arbitrary: j st)
  case 0
  then have j: "j = y" by simp
  obtain e' where "row_loop colorFn nx ny y 0 st = Inl e'"
    using row_loop_throws[where colorFn = colorFn and x = x and j = y and nx = nx and ny = ny,
        OF assms(1,3) assms(2)] by blast
  then show ?case using assms(4) unfolding j by (simp add: frame_loop.simps[of _ _ _ y])
next
  case (Suc n)
  then have lt: "y < j" and n: "n = nat (j - 1 - y)" and le: "y \<le> j - 1" by auto
  then have j0: "0 \<le> j" using assms(4) by simp
  show ?case
  proof (cases "row_loop colorFn nx ny j 0 st")
    case (Inl e1)
    then show ?thesis using j0 by (simp add: frame_loop.simps[of _ _ _ j])
  next
    case (Inr st')
    then show ?thesis
      using j0 Suc.hyps(1)[OF n le, of st'] by (simp add: frame_loop.simps[of _ _ _ j])
  qed
qed

lemma row_loop_error_origin:
  "row_loop colorFn nx ny j i st = Inl e \<Longrightarrow> \<exists>x. colorFn x j nx ny = Inl e"
proof (induction colorFn nx ny j i st rule: row_loop.induct)
  case (1 colorFn nx ny j i st)
  show ?case
  proof (cases "i < nx")
    case False
    then show ?thesis using "1.prems" by (simp add: row_loop.simps[of _ _ _ _ i])
  next
    case True
    show ?thesis
    proof (cases "colorFn i j nx ny")
      case (Inl e1)
      then show ?thesis using True "1.prems" by (auto simp: row_loop.simps[of _ _ _ _ i])
    next
      case (Inr c)
      then show ?thesis
        using True "1.prems" "1.IH"[OF True Inr] by (simp add: row_loop.simps[of _ _ _ _ i])
    qed
  qed
qed

lemma frame_loop_error_origin:
  "frame_loop colorFn nx ny j st = Inl e \<Longrightarrow> \<exists>x y. colorFn x y nx ny = Inl e"
proof (induction colorFn nx ny j st rule: frame_loop.induct)
  case (1 colorFn nx ny j st)
  show ?case
  proof (cases "0 \<le> j")
    case False
    then show ?thesis using "1.prems" by (simp add: frame_loop.simps[of _ _ _ j])
  next
    case True
    show ?thesis
    proof (cases "row_loop colorFn nx ny j 0 st")
      case (Inl e1)
      then show ?thesis
        using True "1.prems" row_loop_error_origin[of colorFn nx ny j 0 st e1]
        by (auto simp: frame_loop.simps[of _ _ _ j])
    next
      case (Inr st')
      then show ?thesis
        using True "1.prems" "1.IH"[OF True Inr] by (simp add: frame_loop.simps[of _ _ _ j])
    qed
  qed
qed

section \<open>Pixels of the committed buffer\<close>

lemma pixel_index:
  fixes x y c cw ch :: nat
  assumes "x < cw" "y < ch" "c < 4"
  shows "4 * (y * cw + x) + c < 4 * cw * ch"
    and "(4 * (y * cw + x) + c) div 4 = y * cw + x"
    and "(4 * (y * cw + x) + c) mod 4 = c"
    and "(y * cw + x) mod cw = x"
    and "(y * cw + x) div cw = y"
proof -
  have "y * cw + x < y * cw + cw" using assms(1) by simp
  also have "\<dots> = Suc y * cw" by simp
  also have "\<dots> \<le> ch * cw" using assms(2) by (intro mult_le_mono1) simp
  finally have "y * cw + x < cw * ch" by (simp add: mult.commute)
  then show "4 * (y * cw + x) + c < 4 * cw * ch" using assms(3) by simp
  show "(4 * (y * cw + x) + c) div 4 = y * cw + x" using assms(3) by simp
  have "(4 * n + c) mod 4 = c" for n :: nat using assms(3) by simp
  then show "(4 * (y * cw + x) + c) mod 4 = c" .
  show "(y * cw + x) mod cw = x" using assms(1) by simp
  show "(y * cw + x) div cw = y" using assms(1) by simp
qed

lemma gradient_top_left: "gradient 0 479 640 480 = (0, 255, 51)"
  by code_simp

lemma gradient_bottom_right: "gradient 639 0 640 480 = (255, 0, 51)"
  by code_simp

lemma gradient_origin: "gradient 0 0 640 480 = (0, 0, 51)"
  by code_simp

lemma fresh_pixel:
  assumes "x < w" "y < h" "0 < r" "f (int x) (int y) (int w) (int h) = (ir, ig, ib)"
  shows "committed_pixel (render_with (pure_fn f) (fill white (setSize w h r blank_canvas)))
           (((h - 1 - y) * w + x) mod (w * r)) (((h - 1 - y) * w + x) div (w * r))
         = Some (to_uint8_clamp ir, to_uint8_clamp ig, to_uint8_clamp ib, 255)"
proof -
  let ?vp = "fill white (setSize w h r blank_canvas)"
  let ?m = "(h - 1 - y) * w + x"
  let ?k = "4 * ?m"
  have p: "0 < w" "0 < h" using assms(1,2) by simp_all
  note r = render_surface(2)[OF surface_blank p assms(3), of f]
    render_surface(3)[OF surface_blank p assms(3)]
  have px: "rendered f w h (h * w) (bitmap ?vp) ! (?k + c) = to_uint8_clamp (rgb_channel (ir, ig, ib) c)"
    if "c < 3" for c
    using rendered_pixel[where f = f, OF assms(1,2) that r(2)] assms(4) by simp
  have "?k + 3 < 4 * (h * w)" using pixel_number_bound[OF assms(1,2)] by simp
  then have k3: "?k + 3 < length (bitmap ?vp)" using r(2) by simp
  have "(4 * n + 3) mod 4 = 3" for n :: nat by presburger
  then have "(?k + 3) mod 4 = 3" .
  then have "rendered f w h (h * w) (bitmap ?vp) ! (?k + 3) = bitmap ?vp ! (?k + 3)"
    using k3 by (rule rendered_alpha[rotated])
  also have "\<dots> = 255"
    using k3 unfolding bitmap_blank by (simp only: nth_replicate length_replicate)
  finally have a: "rendered f w h (h * w) (bitmap ?vp) ! (?k + 3) = 255" .
  have i: "?m div (w * r) * (w * r * 4) + ?m mod (w * r) * 4 = ?k"
  proof -
    define q t where "q = ?m div (w * r)" and "t = ?m mod (w * r)"
    have "q * (w * r) + t = ?m" unfolding q_def t_def by (rule div_mult_mod_eq)
    then have "4 * (q * (w * r) + t) = ?k" by (rule arg_cong)
    then have "q * (w * r * 4) + t * 4 = ?k" by (simp only: distrib_left mult.assoc mult.commute mult.left_commute)
    then show ?thesis unfolding q_def t_def .
  qed
  have p0: "rendered f w h (h * w) (bitmap ?vp) ! ?k = to_uint8_clamp ir"
    using px[of 0] by (simp add: rgb_channel_def)
  have p1: "rendered f w h (h * w) (bitmap ?vp) ! (?k + 1) = to_uint8_clamp ig"
    using px[of 1] by (simp add: rgb_channel_def)
  have p2: "rendered f w h (h * w) (bitmap ?vp) ! (?k + 2) = to_uint8_clamp ib"
    using px[of 2] by (simp add: rgb_channel_def)
  show ?thesis
    unfolding committed_pixel_def committed_def r(1) pixel_at_def Let_def
    by (simp only: fst_conv sum.case prod.case option.map image_data.simps i p0 p1 p2 a)
qed

section \<open>The claims\<close>

text \<open>
  C1 asks for one evaluation of the colour for each pixel of the backing store. The
  code at the page's viewport on a window of pixel ratio 2: the render pass evaluates
  the colour 307200 times, once for each of the 640 by 480 logical pixels, while the
  backing store has 1228800 pixels.
\<close>

theorem render_skips_backing_store_pixels:
  "setup_page (Some blank_canvas) True (Some 2) = Inr (fill white (setSize 640 480 2 blank_canvas)) \<and>
   length (colour_calls (render (fill white (setSize 640 480 2 blank_canvas)))) = 307200 \<and>
   canvas_width (fill white (setSize 640 480 2 blank_canvas))
     * canvas_height (fill white (setSize 640 480 2 blank_canvas)) = 1228800"
proof -
  have s: "surface (fill white (setSize 640 480 2 blank_canvas)) 640 480 2" by (rule surface_blank)
  have "length (colour_calls (render (fill white (setSize 640 480 2 blank_canvas)))) = 640 * 480"
    unfolding render_def by (rule render_calls_count[OF s]) simp_all
  moreover have "canvas_width (fill white (setSize 640 480 2 blank_canvas)) = 640 * 2"
    "canvas_height (fill white (setSize 640 480 2 blank_canvas)) = 480 * 2"
    using s by (simp_all add: surface_def)
  moreover have "setup_page (Some blank_canvas) True (Some 2)
                 = Inr (fill white (setSize 640 480 2 blank_canvas))"
    by (simp add: setup_page_def create_blank devicePixelRatio_def)
  ultimately show ?thesis by simp
qed

text \<open>
  C2, as the code has it. The \<open>imageData\<close> setter checks nothing and cannot fail: for
  a buffer of any size it puts the pixels of the buffer that lie on the backing store
  and leaves the other pixels of the surface as they were. A pixel that is put keeps
  its alpha, and an opaque one is copied byte for byte. An opaque buffer of the size
  of the backing store replaces the whole content.
\<close>

theorem set_imageData_copies_overlap:
  assumes "surface vp w h r" "x < w * r" "y < h * r" "c < 4"
  shows "surface (set_imageData img vp) w h r \<and>
         (\<not> (x < img_width img \<and> y < img_height img) \<longrightarrow>
            bitmap (set_imageData img vp) ! (4 * (y * (w * r) + x) + c)
              = bitmap vp ! (4 * (y * (w * r) + x) + c)) \<and>
         (x < img_width img \<and> y < img_height img \<longrightarrow>
            bitmap (set_imageData img vp) ! (4 * (y * (w * r) + x) + 3)
              = img_data img ! (4 * (y * img_width img + x) + 3)) \<and>
         (x < img_width img \<and> y < img_height img \<and>
          img_data img ! (4 * (y * img_width img + x) + 3) = 255 \<longrightarrow>
            bitmap (set_imageData img vp) ! (4 * (y * (w * r) + x) + c)
              = img_data img ! (4 * (y * img_width img + x) + c)) \<and>
         (img_width img = w * r \<and> img_height img = h * r \<and>
          length (img_data img) = 4 * (w * r) * (h * r) \<and> opaque (img_data img)
          \<longrightarrow> bitmap (set_imageData img vp) = img_data img)"
proof -
  let ?i = "4 * (y * img_width img + x)"
  have cw: "canvas_width vp = w * r" and ch: "canvas_height vp = h * r"
    and len: "length (bitmap vp) = 4 * (w * r) * (h * r)"
    using assms(1) by (simp_all add: surface_def)
  have put: "bitmap (set_imageData img vp) ! (4 * (y * (w * r) + x) + c')
        = (if x < img_width img \<and> y < img_height img
           then channel (canvas_pixel (pixel_bytes (img_data img) ?i)) c'
           else bitmap vp ! (4 * (y * (w * r) + x) + c'))"
    if c': "c' < 4" for c'
  proof -
    let ?k = "4 * (y * (w * r) + x) + c'"
    note ix = pixel_index[OF assms(2,3) c']
    have k: "?k < length (bitmap vp)" using ix(1) len by simp
    have "bitmap (set_imageData img vp) ! ?k
        = (if (?k div 4) mod (w * r) < img_width img \<and> (?k div 4) div (w * r) < img_height img
           then channel (canvas_pixel (pixel_bytes (img_data img)
                  (4 * ((?k div 4) div (w * r) * img_width img + (?k div 4) mod (w * r)))))
                  (?k mod 4)
           else bitmap vp ! ?k)"
      using k unfolding set_imageData_def putImageData_def cw by simp
    then show ?thesis unfolding ix(2) ix(3) ix(4) ix(5) .
  qed
  have outside: "bitmap (set_imageData img vp) ! (4 * (y * (w * r) + x) + c)
        = bitmap vp ! (4 * (y * (w * r) + x) + c)"
    if "\<not> (x < img_width img \<and> y < img_height img)"
    using put[OF assms(4)] that by simp
  have alpha: "bitmap (set_imageData img vp) ! (4 * (y * (w * r) + x) + 3)
        = img_data img ! (?i + 3)"
    if "x < img_width img \<and> y < img_height img"
    using put[of 3] that by (simp add: pixel_bytes_def canvas_pixel_alpha)
  have exact: "bitmap (set_imageData img vp) ! (4 * (y * (w * r) + x) + c)
        = img_data img ! (?i + c)"
    if "x < img_width img \<and> y < img_height img \<and> img_data img ! (?i + 3) = 255"
    using put[OF assms(4)] that channel_canvas_pixel_opaque[OF assms(4), of "img_data img" ?i]
    by simp
  have all: "bitmap (set_imageData img vp) = img_data img"
    if "img_width img = w * r \<and> img_height img = h * r \<and>
        length (img_data img) = 4 * (w * r) * (h * r) \<and> opaque (img_data img)"
  proof -
    have "set_imageData img vp = vp\<lparr>bitmap := canvas_data (img_data img)\<rparr>"
      using that cw ch len by (intro set_imageData_fit) simp_all
    moreover have "canvas_data (img_data img) = img_data img"
      using that by (intro canvas_data_opaque[where n = "(w * r) * (h * r)"]) (simp_all add: mult.assoc)
    ultimately show ?thesis by simp
  qed
  show ?thesis
    using surface_set_imageData[OF assms(1)] outside alpha exact all by blast
qed

text \<open>The theorem at a concrete surface.\<close>

theorem set_imageData_copies_overlap_witness:
  "surface (fill white (setSize 2 1 1 blank_canvas)) 2 1 1 \<and>
   bitmap (set_imageData \<lparr>img_width = 1, img_height = 1, img_data = [0, 0, 0, 255]\<rparr>
             (fill white (setSize 2 1 1 blank_canvas))) ! 0 = 0 \<and>
   bitmap (set_imageData \<lparr>img_width = 1, img_height = 1, img_data = [0, 0, 0, 255]\<rparr>
             (fill white (setSize 2 1 1 blank_canvas))) ! 4
     = bitmap (fill white (setSize 2 1 1 blank_canvas)) ! 4"
proof -
  have s: "surface (fill white (setSize 2 1 1 blank_canvas)) 2 1 1" by (rule surface_blank)
  have p: "0 < (2::nat) * 1" "1 < (2::nat) * 1" "0 < (1::nat) * 1" "0 < (4::nat)" by simp_all
  show ?thesis
    using s
      set_imageData_copies_overlap[OF s p(1) p(3) p(4),
        of "\<lparr>img_width = 1, img_height = 1, img_data = [0, 0, 0, 255]\<rparr>"]
      set_imageData_copies_overlap[OF s p(2) p(3) p(4),
        of "\<lparr>img_width = 1, img_height = 1, img_data = [0, 0, 0, 255]\<rparr>"]
    by simp
qed

text \<open>
  The claim as written fails: a 1 by 1 black buffer committed to a white 2 by 1 surface
  is accepted, and pixel \<open>(0, 0)\<close> of the surface changes.
\<close>

theorem set_imageData_mismatch_counterexample:
  "img_width \<lparr>img_width = 1, img_height = 1, img_data = [0, 0, 0, 255]\<rparr>
     \<noteq> canvas_width (fill white (setSize 2 1 1 blank_canvas)) \<and>
   bitmap (fill white (setSize 2 1 1 blank_canvas))
     = [255, 255, 255, 255, 255, 255, 255, 255] \<and>
   bitmap (set_imageData \<lparr>img_width = 1, img_height = 1, img_data = [0, 0, 0, 255]\<rparr>
             (fill white (setSize 2 1 1 blank_canvas)))
     = [0, 0, 0, 255, 255, 255, 255, 255]"
  by code_simp

text \<open>
  C3, as the code has it. For every pixel \<open>(x, y)\<close> that the scan visits, with
  \<open>k = 4 * ((h - 1 - y) * w + x)\<close>, the committed buffer holds the clamped red, green
  and blue of the colour at \<open>k\<close>, \<open>k + 1\<close> and \<open>k + 2\<close>, and at \<open>k + 3\<close> the alpha byte of the
  snapshot that was read: the loop does not store alpha. On a viewport as \<open>create\<close>
  returns it that byte is 255, from the white fill of the constructor.
\<close>

theorem render_writes_rgb_keeps_alpha:
  assumes "surface vp w h r" "0 < w" "0 < h" "0 < r" "x < w" "y < h"
  shows "\<exists>snap img tr vp'.
           imageData vp = Inr snap \<and>
           render_with (pure_fn f) vp = (Inr (img, tr), vp') \<and>
           (int x, int y, 4 * ((h - 1 - y) * w + x)) \<in> set tr \<and>
           img_data img ! (4 * ((h - 1 - y) * w + x))
             = to_uint8_clamp (fst (f (int x) (int y) (int w) (int h))) \<and>
           img_data img ! (4 * ((h - 1 - y) * w + x) + 1)
             = to_uint8_clamp (fst (snd (f (int x) (int y) (int w) (int h)))) \<and>
           img_data img ! (4 * ((h - 1 - y) * w + x) + 2)
             = to_uint8_clamp (snd (snd (f (int x) (int y) (int w) (int h)))) \<and>
           img_data img ! (4 * ((h - 1 - y) * w + x) + 3)
             = img_data snap ! (4 * ((h - 1 - y) * w + x) + 3) \<and>
           (create cv w h r = Inr vp \<longrightarrow> img_data img ! (4 * ((h - 1 - y) * w + x) + 3) = 255)"
proof -
  let ?k = "4 * ((h - 1 - y) * w + x)"
  let ?c = "f (int x) (int y) (int w) (int h)"
  note r = render_surface(1)[OF assms(1-4)] render_surface(2)[OF assms(1-4), of f]
    render_surface(3)[OF assms(1-4)]
  have px: "rendered f w h (h * w) (bitmap vp) ! (?k + c) = to_uint8_clamp (rgb_channel ?c c)"
    if "c < 3" for c
    using rendered_pixel[where f = f, OF assms(5,6) that r(3)] .
  have "?k + 3 < 4 * (h * w)" using pixel_number_bound[OF assms(5,6)] by simp
  then have k3: "?k + 3 < length (bitmap vp)" using r(3) by simp
  have "(4 * n + 3) mod 4 = 3" for n :: nat by presburger
  then have "(?k + 3) mod 4 = 3" .
  then have a: "rendered f w h (h * w) (bitmap vp) ! (?k + 3) = bitmap vp ! (?k + 3)"
    using k3 by (rule rendered_alpha[rotated])
  have fresh: "bitmap vp ! (?k + 3) = 255" if "create cv w h r = Inr vp"
  proof -
    have "bitmap vp = replicate (4 * (w * r) * (h * r)) 255"
      using that Viewport_surface(2)[of cv w h r vp] by (simp add: create_def)
    moreover have "?k + 3 < 4 * (w * r) * (h * r)"
      using k3 surface_bitmap_length[OF assms(1)] by simp
    ultimately show ?thesis by (simp only: nth_replicate)
  qed
  have p0: "rendered f w h (h * w) (bitmap vp) ! ?k = to_uint8_clamp (fst ?c)"
    using px[of 0] by (simp add: rgb_channel_def split: prod.splits)
  have p1: "rendered f w h (h * w) (bitmap vp) ! (?k + 1) = to_uint8_clamp (fst (snd ?c))"
    using px[of 1] by (simp add: rgb_channel_def split: prod.splits)
  have p2: "rendered f w h (h * w) (bitmap vp) ! (?k + 2) = to_uint8_clamp (snd (snd ?c))"
    using px[of 2] by (simp add: rgb_channel_def split: prod.splits)
  show ?thesis
    using r(1,2) trace_member[OF assms(5,6)] p0 p1 p2 a fresh by simp
qed

text \<open>The theorem at a concrete surface.\<close>

theorem render_writes_rgb_keeps_alpha_witness:
  "surface (fill white (setSize 1 1 1 blank_canvas)) 1 1 1 \<and>
   create (Some blank_canvas) 1 1 1 = Inr (fill white (setSize 1 1 1 blank_canvas)) \<and>
   (\<exists>img tr vp'.
      render (fill white (setSize 1 1 1 blank_canvas)) = (Inr (img, tr), vp') \<and>
      (0, 0, 0) \<in> set tr \<and>
      img_data img ! 0 = 0 \<and> img_data img ! 1 = 0 \<and> img_data img ! 2 = 51 \<and>
      img_data img ! 3 = 255)"
proof -
  have s: "surface (fill white (setSize 1 1 1 blank_canvas)) 1 1 1" by (rule surface_blank)
  have c: "create (Some blank_canvas) 1 1 1 = Inr (fill white (setSize 1 1 1 blank_canvas))"
    by (rule create_blank)
  have v: "to_uint8_clamp 0 = 0" "to_uint8_clamp 51 = 51"
    by (simp_all add: to_uint8_clamp_def)
  show ?thesis
    using render_writes_rgb_keeps_alpha[OF s, of 0 0 gradient "Some blank_canvas"] s c
    by (simp add: render_def gradient_0_0_1_1 v numeral_2_eq_2 numeral_3_eq_3) blast
qed

text \<open>
  The claim as written fails: after \<open>clear\<close> the alpha of the snapshot is 0, and the
  pixel the loop visits is committed with alpha 0.
\<close>

theorem render_leaves_alpha_counterexample:
  "committed (render (clear (fill white (setSize 1 1 1 blank_canvas))))
   = Some \<lparr>img_width = 1, img_height = 1, img_data = [0, 0, 51, 0]\<rparr>"
  by code_simp

text \<open>
  C4, as the code computes it. On the page's 640 by 480 surface at pixel ratio 1 the
  committed frame has pixel \<open>(0, 0)\<close> equal to \<open>(0, 255, 51, 255)\<close> and pixel
  \<open>(639, 479)\<close> equal to \<open>(255, 0, 51, 255)\<close>: the first pixel of the buffer is that
  of the top row \<open>y = 479\<close> of the scan, the last one that of the row \<open>y = 0\<close>.
\<close>

theorem render_gradient_corners:
  "setup_page (Some blank_canvas) True None = Inr (fill white (setSize 640 480 1 blank_canvas)) \<and>
   committed_pixel (render (fill white (setSize 640 480 1 blank_canvas))) 0 0
     = Some (0, 255, 51, 255) \<and>
   committed_pixel (render (fill white (setSize 640 480 1 blank_canvas))) 639 479
     = Some (255, 0, 51, 255)"
proof -
  have v: "to_uint8_clamp 0 = 0" "to_uint8_clamp 51 = 51" "to_uint8_clamp 255 = 255"
    by (simp_all add: to_uint8_clamp_def)
  have g1: "gradient (int 0) (int 479) (int 640) (int 480) = (0, 255, 51)"
    using gradient_top_left by simp
  have g2: "gradient (int 639) (int 0) (int 640) (int 480) = (255, 0, 51)"
    using gradient_bottom_right by simp
  have "setup_page (Some blank_canvas) True None
        = Inr (fill white (setSize 640 480 1 blank_canvas))"
    by (simp add: setup_page_def create_blank devicePixelRatio_def)
  moreover have "committed_pixel (render (fill white (setSize 640 480 1 blank_canvas))) 0 0
     = Some (0, 255, 51, 255)"
    using fresh_pixel[where f = gradient and r = 1 and x = 0 and y = 479 and w = 640 and h = 480, OF _ _ _ g1]
    by (simp add: render_def v)
  moreover have "committed_pixel (render (fill white (setSize 640 480 1 blank_canvas))) 639 479
     = Some (255, 0, 51, 255)"
    using fresh_pixel[where f = gradient and r = 1 and x = 639 and y = 0 and w = 640 and h = 480, OF _ _ _ g2]
    by (simp add: render_def v)
  ultimately show ?thesis by simp
qed

text \<open>
  The claim as written fails at pixel \<open>(0, 0)\<close>: its green channel is 255, the colour
  of the logical pixel \<open>(0, 479)\<close>; the colour of the logical pixel \<open>(0, 0)\<close> has green 0.
  Neither is near 191.
\<close>

theorem render_gradient_origin_counterexample:
  "committed_pixel (render (fill white (setSize 640 480 1 blank_canvas))) 0 0
     \<noteq> Some (0, 191, 51, 255) \<and>
   committed_pixel (render (fill white (setSize 640 480 1 blank_canvas))) 0 0
     = Some (0, 255, 51, 255) \<and>
   gradient 0 0 640 480 = (0, 0, 51) \<and> gradient 0 479 640 480 = (0, 255, 51)"
proof -
  have v: "to_uint8_clamp 0 = 0" "to_uint8_clamp 51 = 51" "to_uint8_clamp 255 = 255"
    by (simp_all add: to_uint8_clamp_def)
  have g1: "gradient (int 0) (int 479) (int 640) (int 480) = (0, 255, 51)"
    using gradient_top_left by simp
  have "committed_pixel (render (fill white (setSize 640 480 1 blank_canvas))) 0 0
     = Some (0, 255, 51, 255)"
    using fresh_pixel[where f = gradient and r = 1 and x = 0 and y = 479 and w = 640 and h = 480, OF _ _ _ g1]
    by (simp add: render_def v)
  then show ?thesis using gradient_origin gradient_top_left by simp
qed

text \<open>
  C5. On a surface of logical size \<open>w\<close> by \<open>h\<close> a render pass evaluates the colour
  row by row, \<open>y\<close> from \<open>h - 1\<close> down to \<open>0\<close>, and in each row for \<open>x\<close> from \<open>0\<close> up to
  \<open>w - 1\<close>; the write cursor starts at 0 and grows by 4 from one evaluation to the next;
  so the colour of \<open>(x, y)\<close> is stored at byte offset \<open>4 * ((h - 1 - y) * w + x)\<close>.
\<close>

theorem render_scan_order:
  assumes "surface vp w h r" "0 < w" "0 < h" "0 < r"
  shows "\<exists>img tr vp'.
           render_with (pure_fn f) vp = (Inr (img, tr), vp') \<and>
           tr = concat (map (\<lambda>y. map (\<lambda>x. (int x, int y, 4 * ((h - 1 - y) * w + x))) [0..<w])
                         (rev [0..<h])) \<and>
           map (\<lambda>e. snd (snd e)) tr = map (\<lambda>m. 4 * m) [0..<w * h] \<and>
           (\<forall>x<w. \<forall>y<h. \<forall>c<3.
              img_data img ! (4 * ((h - 1 - y) * w + x) + c)
              = to_uint8_clamp (rgb_channel (f (int x) (int y) (int w) (int h)) c))"
proof -
  note r = render_surface(1)[OF assms] render_surface(2)[OF assms, of f] render_surface(3)[OF assms]
  have "map (\<lambda>e. snd (snd e)) (trace w h (h * w)) = map (\<lambda>m. 4 * m) [0..<w * h]"
    by (simp add: trace_cursor mult.commute)
  moreover have "\<forall>x<w. \<forall>y<h. \<forall>c<3.
      rendered f w h (h * w) (bitmap vp) ! (4 * ((h - 1 - y) * w + x) + c)
      = to_uint8_clamp (rgb_channel (f (int x) (int y) (int w) (int h)) c)"
    using rendered_pixel[where f = f, OF _ _ _ r(3)] by blast
  ultimately show ?thesis
    using r(2) trace_rows[of w h] by simp
qed

text \<open>The theorem at a concrete surface.\<close>

theorem render_scan_order_witness:
  "surface (fill white (setSize 2 2 1 blank_canvas)) 2 2 1 \<and>
   colour_calls (render (fill white (setSize 2 2 1 blank_canvas)))
     = [(0, 1, 0), (1, 1, 4), (0, 0, 8), (1, 0, 12)]"
proof -
  have s: "surface (fill white (setSize 2 2 1 blank_canvas)) 2 2 1" by (rule surface_blank)
  obtain img tr vp' where
    "render_with (pure_fn gradient) (fill white (setSize 2 2 1 blank_canvas)) = (Inr (img, tr), vp')"
    "tr = concat (map (\<lambda>y. map (\<lambda>x. (int x, int y, 4 * ((2 - 1 - y) * 2 + x))) [0..<2]) (rev [0..<2]))"
    using render_scan_order[OF s, of gradient] by auto
  moreover have "concat (map (\<lambda>y. map (\<lambda>x. (int x, int y, 4 * ((2 - 1 - y) * 2 + x))) [0..<2]) (rev [0..<2]))
     = [(0, 1, 0), (1, 1, 4), (0, 0, 8), (1, 0, 12)]"
    by code_simp
  ultimately show ?thesis using s by (simp only: colour_calls_def render_def fst_conv sum.case prod.case simp_thms)
qed

text \<open>
  C6. After \<open>create\<close> succeeds with \<open>(w, h, r)\<close>, \<open>width\<close> is \<open>w\<close> and \<open>height\<close> is \<open>h\<close>,
  the logical size, whatever the pixel ratio and the backing-store size
  \<open>w * r\<close> by \<open>h * r\<close>; and they stay so under every operation of the class and under a
  render pass, whatever the per-pixel computation does.
\<close>

theorem logical_size_after_create:
  assumes "create cv w h r = Inr vp"
  shows "width vp = Some (int w) \<and> height vp = Some (int h) \<and>
         canvas_width vp = w * r \<and> canvas_height vp = h * r \<and>
         width (fill s vp) = Some (int w) \<and> height (fill s vp) = Some (int h) \<and>
         width (clear vp) = Some (int w) \<and> height (clear vp) = Some (int h) \<and>
         width (set_imageData img vp) = Some (int w) \<and>
         height (set_imageData img vp) = Some (int h) \<and>
         width (snd (render_with colorFn vp)) = Some (int w) \<and>
         height (snd (render_with colorFn vp)) = Some (int h)"
proof -
  have s: "surface vp w h r"
    using assms Viewport_surface(1)[of cv w h r vp] by (simp add: create_def)
  have "width vp = Some (int w)" "height vp = Some (int h)"
    using s by (rule surface_width, rule surface_height)
  moreover have "canvas_width vp = w * r" "canvas_height vp = h * r"
    using s by (simp_all add: surface_def)
  ultimately show ?thesis
    by (simp add: width_def height_def style_kept render_with_style)
qed

text \<open>The theorem at a concrete surface.\<close>

theorem logical_size_after_create_witness:
  "create (Some blank_canvas) 640 480 2 = Inr (fill white (setSize 640 480 2 blank_canvas)) \<and>
   width (fill white (setSize 640 480 2 blank_canvas)) = Some 640 \<and>
   height (fill white (setSize 640 480 2 blank_canvas)) = Some 480 \<and>
   canvas_width (fill white (setSize 640 480 2 blank_canvas)) = 1280 \<and>
   canvas_height (fill white (setSize 640 480 2 blank_canvas)) = 960 \<and>
   width (snd (render (fill white (setSize 640 480 2 blank_canvas)))) = Some 640 \<and>
   height (snd (render (fill white (setSize 640 480 2 blank_canvas)))) = Some 480"
  using logical_size_after_create[OF create_blank, of 640 480 2 white
      "\<lparr>img_width = 1, img_height = 1, img_data = [0, 0, 0, 255]\<rparr>" "pure_fn gradient"]
    create_blank[of 640 480 2]
  by (simp add: render_def)

text \<open>
  C7. When the colour function throws at a pixel of the surface, the render pass ends
  with an error that the colour function threw, and the canvas is what it was before
  the pass: the \<open>imageData\<close> setter is not reached and nothing of the frame is committed.
  The error is the colour function's own, passed on unchanged.
\<close>

theorem render_fails_without_commit:
  assumes "surface vp w h r" "0 < r" "x < w" "y < h"
    and "colorFn (int x) (int y) (int w) (int h) = Inl e"
  shows "\<exists>e' x' y'. render_with colorFn vp = (Inl e', vp) \<and>
                     colorFn x' y' (int w) (int h) = Inl e' \<and>
                     committed (render_with colorFn vp) = None \<and>
                     bitmap (snd (render_with colorFn vp)) = bitmap vp"
proof -
  have p: "0 < w" "0 < h" using assms(3,4) by simp_all
  note i = imageData_surface[OF assms(1) p assms(2)]
  obtain e' where f: "frame_loop colorFn (int w) (int h) (int h - 1)
                        \<lparr>index = 0, data = bitmap vp, calls = []\<rparr> = Inl e'"
    using frame_loop_throws[where colorFn = colorFn and x = "int x" and y = "int y"
        and nx = "int w" and ny = "int h" and j = "int h - 1", OF assms(5)] assms(3,4) by auto
  obtain x' y' where o: "colorFn x' y' (int w) (int h) = Inl e'"
    using frame_loop_error_origin[OF f] by blast
  have "render_with colorFn vp = (Inl e', vp)"
    by (simp add: render_with_def surface_width[OF assms(1)] surface_height[OF assms(1)] i f)
  then show ?thesis using o by (auto simp: committed_def)
qed

text \<open>The theorem at a concrete surface.\<close>

theorem render_fails_without_commit_witness:
  "surface (fill white (setSize 640 480 1 blank_canvas)) 640 480 1 \<and>
   failing_at 320 240 320 240 640 480 = Inl (Error ''colour'') \<and>
   render_with (failing_at 320 240) (fill white (setSize 640 480 1 blank_canvas))
     = (Inl (Error ''colour''), fill white (setSize 640 480 1 blank_canvas))"
proof -
  have s: "surface (fill white (setSize 640 480 1 blank_canvas)) 640 480 1" by (rule surface_blank)
  have f: "failing_at 320 240 (int 320) (int 240) (int 640) (int 480) = Inl (Error ''colour'')"
    by (simp add: failing_at_def)
  have p: "0 < (1::nat)" "320 < (640::nat)" "240 < (480::nat)" by simp_all
  from render_fails_without_commit[where colorFn = "failing_at 320 240" and x = 320 and y = 240,
      OF s p f]
  obtain e' x' y' where
    a: "render_with (failing_at 320 240) (fill white (setSize 640 480 1 blank_canvas))
        = (Inl e', fill white (setSize 640 480 1 blank_canvas))"
    and b: "failing_at 320 240 x' y' (int 640) (int 480) = Inl e'"
    by blast
  have "e' = Error ''colour''"
    using b by (simp add: failing_at_def split: if_splits)
  then show ?thesis using s f a by simp
qed




text \<open>
  C9. On a surface of logical size \<open>w\<close> by \<open>h\<close> with pixel ratio \<open>r > 1\<close> the snapshot
  has \<open>4 * w * h * r * r\<close> bytes and the committed buffer as many, and every byte at
  offset \<open>4 * w * h\<close> or beyond is in the committed buffer what it was in the snapshot.
\<close>

theorem render_frame_effect:
  assumes "surface vp w h r" "0 < w" "0 < h" "1 < r"
  shows "\<exists>snap img tr vp'.
           imageData vp = Inr snap \<and>
           render_with (pure_fn f) vp = (Inr (img, tr), vp') \<and>
           length (img_data snap) = 4 * w * h * r * r \<and>
           length (img_data img) = 4 * w * h * r * r \<and>
           4 * w * h < length (img_data snap) \<and>
           (\<forall>p. 4 * w * h \<le> p \<and> p < length (img_data snap)
                 \<longrightarrow> img_data img ! p = img_data snap ! p)"
proof -
  have r0: "0 < r" using assms(4) by simp
  note r = render_surface(1)[OF assms(1-3) r0] render_surface(2)[OF assms(1-3) r0, of f]
  have len: "length (bitmap vp) = 4 * w * h * r * r"
    using surface_bitmap_length[OF assms(1)] by (simp add: mult.commute mult.left_commute)
  have "1 < r * r" using assms(4) one_less_mult[of r r] by simp
  moreover have "0 < w * h" using assms(2,3) by simp
  ultimately have "w * h * 1 < w * h * (r * r)" by (rule mult_strict_left_mono)
  then have more: "4 * w * h < 4 * w * h * r * r" by (simp add: mult.assoc)
  have "\<forall>p. 4 * w * h \<le> p \<and> p < length (bitmap vp)
        \<longrightarrow> rendered f w h (h * w) (bitmap vp) ! p = bitmap vp ! p"
    by (simp add: rendered_beyond mult.commute mult.left_commute)
  then show ?thesis using r len more by simp
qed

text \<open>The theorem at a concrete surface.\<close>

theorem render_frame_effect_witness:
  "surface (fill white (setSize 1 1 2 blank_canvas)) 1 1 2 \<and>
   (\<exists>snap img tr vp'.
      imageData (fill white (setSize 1 1 2 blank_canvas)) = Inr snap \<and>
      render (fill white (setSize 1 1 2 blank_canvas)) = (Inr (img, tr), vp') \<and>
      length (img_data snap) = 16 \<and> length (img_data img) = 16 \<and>
      img_data img ! 4 = img_data snap ! 4 \<and> img_data img ! 15 = img_data snap ! 15)"
proof -
  have s: "surface (fill white (setSize 1 1 2 blank_canvas)) 1 1 2" by (rule surface_blank)
  have p: "0 < (1::nat)" "1 < (2::nat)" by simp_all
  from render_frame_effect[OF s p(1) p(1) p(2), of gradient]
  obtain snap img tr vp' where
    a: "imageData (fill white (setSize 1 1 2 blank_canvas)) = Inr snap"
    and b: "render_with (pure_fn gradient) (fill white (setSize 1 1 2 blank_canvas))
            = (Inr (img, tr), vp')"
    and c: "length (img_data snap) = 4 * 1 * 1 * 2 * 2" "length (img_data img) = 4 * 1 * 1 * 2 * 2"
    and d: "\<forall>p. 4 * 1 * 1 \<le> p \<and> p < length (img_data snap)
               \<longrightarrow> img_data img ! p = img_data snap ! p"
    by blast
  have "img_data img ! 4 = img_data snap ! 4" "img_data img ! 15 = img_data snap ! 15"
    using d c(1) by simp_all
  then show ?thesis
    using s a b c
    by (intro conjI exI[of _ snap] exI[of _ img] exI[of _ tr] exI[of _ vp'])
       (simp_all add: render_def)
qed

text \<open>
  C10. On a surface of logical size \<open>w\<close> by \<open>h\<close> with pixel ratio \<open>r \<ge> 1\<close> the write
  cursor takes the values \<open>0, 4, \<dots>, 4 * (w * h - 1)\<close>, and at each of them the offsets
  \<open>+0\<close> to \<open>+3\<close> are below the length \<open>4 * w * h * r * r\<close> of the buffer: every store of
  the loop is inside the buffer.
\<close>

theorem render_stores_in_bounds:
  assumes "surface vp w h r" "0 < w" "0 < h" "1 \<le> r"
  shows "\<exists>snap img tr vp'.
           imageData vp = Inr snap \<and>
           render_with (pure_fn f) vp = (Inr (img, tr), vp') \<and>
           length (img_data snap) = 4 * w * h * r * r \<and>
           map (\<lambda>e. snd (snd e)) tr = map (\<lambda>m. 4 * m) [0..<w * h] \<and>
           (\<forall>e \<in> set tr. snd (snd e) + 3 < length (img_data snap))"
proof -
  have r0: "0 < r" using assms(4) by simp
  note r = render_surface(1)[OF assms(1-3) r0] render_surface(2)[OF assms(1-3) r0, of f]
    render_surface(3)[OF assms(1-3) r0]
  have len: "length (bitmap vp) = 4 * w * h * r * r"
    using surface_bitmap_length[OF assms(1)] by (simp add: mult.commute mult.left_commute)
  have "\<forall>e \<in> set (trace w h (h * w)). snd (snd e) + 3 < length (bitmap vp)"
    using r(3) by (auto simp: trace_def)
  moreover have "map (\<lambda>e. snd (snd e)) (trace w h (h * w)) = map (\<lambda>m. 4 * m) [0..<w * h]"
    by (simp add: trace_cursor mult.commute)
  ultimately show ?thesis using r(1,2) len by simp
qed

text \<open>The theorem at a concrete surface.\<close>

theorem render_stores_in_bounds_witness:
  "surface (fill white (setSize 2 1 1 blank_canvas)) 2 1 1 \<and>
   (\<exists>snap img tr vp'.
      imageData (fill white (setSize 2 1 1 blank_canvas)) = Inr snap \<and>
      render (fill white (setSize 2 1 1 blank_canvas)) = (Inr (img, tr), vp') \<and>
      length (img_data snap) = 8 \<and> map (\<lambda>e. snd (snd e)) tr = [0, 4])"
proof -
  have s: "surface (fill white (setSize 2 1 1 blank_canvas)) 2 1 1" by (rule surface_blank)
  have p: "0 < (2::nat)" "0 < (1::nat)" "1 \<le> (1::nat)" by simp_all
  from render_stores_in_bounds[OF s p, of gradient]
  obtain snap img tr vp' where
    a: "imageData (fill white (setSize 2 1 1 blank_canvas)) = Inr snap"
    and b: "render_with (pure_fn gradient) (fill white (setSize 2 1 1 blank_canvas))
            = (Inr (img, tr), vp')"
    and c: "length (img_data snap) = 4 * 2 * 1 * 1 * 1"
    and d: "map (\<lambda>e. snd (snd e)) tr = map (\<lambda>m. 4 * m) [0..<2 * 1]"
    by blast
  have e: "map (\<lambda>m. 4 * m) [0..<2 * 1] = [0, 4 :: nat]" by code_simp
  show ?thesis
    using s a b c d[unfolded e]
    by (intro conjI exI[of _ snap] exI[of _ img] exI[of _ tr] exI[of _ vp'])
       (simp_all add: render_def)
qed

end
